theory Spec2Isabelle
  imports Main "HOL-Library.Word"
begin

section \<open>Machine integers\<close>

text \<open>
  Go's \<open>uint\<close> and \<open>int\<close> are taken at 64 bits. Both are 64-bit words; a value of
  type \<open>int\<close> is read with \<open>sint\<close>, a value of type \<open>uint\<close> with \<open>unat\<close>. The
  conversion \<open>int(v)\<close> of a \<open>uint\<close> keeps the bits, so it is the identity on words and
  changes only the reading. Arithmetic (\<open>count++\<close>, \<open>limit - count\<close>, \<open>-n\<close>) wraps, as
  word arithmetic does.
\<close>

type_synonym uint = "64 word"
type_synonym gint = "64 word"

text \<open>
  Modelled from the spec: \<open>database.NilVersion\<close> (package \<open>database\<close> is not at hand),
  the sentinel -1 for a database with no migration applied.
\<close>

definition NilVersion :: gint where
  "NilVersion = - 1"

text \<open>
  Modelled from the spec: \<open>suint\<close> (its file is not at hand). A version is a
  non-negative integer and \<open>from\<close> an \<open>int\<close> in which -1 stands for the empty database;
  \<open>suint\<close> turns an \<open>int\<close> that holds a version into the \<open>uint\<close> of the same value. On
  a negative argument, which is no version, the model stops with a panic (\<open>None\<close>).
\<close>

definition suint :: "gint \<Rightarrow> uint option" where
  "suint n = (if sint n < 0 then None else Some n)"

section \<open>Errors\<close>

datatype err =
    ErrNoChange
  | ErrNilVersion
  | ErrLocked
  | ErrShortLimit uint
  | OsErrNotExist
  | OsErrExist
  | PathError string err
  | DriverErr string
  | MultiError "err option list"

text \<open>\<open>os.IsNotExist\<close> and \<open>os.IsExist\<close> look through one \<open>PathError\<close> wrapper.\<close>

fun underlyingError :: "err \<Rightarrow> err" where
  "underlyingError (PathError p e) = e"
| "underlyingError e = e"

definition IsNotExist :: "err \<Rightarrow> bool" where
  "IsNotExist e = (underlyingError e = OsErrNotExist)"

definition IsExist :: "err \<Rightarrow> bool" where
  "IsExist e = (underlyingError e = OsErrExist)"

section \<open>Source driver, migration records\<close>

text \<open>
  The source driver is an interface; the planner uses five of its methods. A reader is
  modelled by the bytes it yields.
\<close>

record source_driver =
  src_First :: "err + uint"
  src_Next :: "uint \<Rightarrow> err + uint"
  src_Prev :: "uint \<Rightarrow> err + uint"
  src_ReadUp :: "uint \<Rightarrow> err + (string \<times> string)"
  src_ReadDown :: "uint \<Rightarrow> err + (string \<times> string)"

record migration =
  Identifier :: string
  Version :: uint
  TargetVersion :: gint
  Body :: "string option"

text \<open>
  Modelled from the spec: \<open>NewMigration\<close> (the migration record's constructor, whose file
  is not at hand). Construction takes the stream or its absence, the identifier, the
  version and the target version. The error result that the callers test is kept in the
  type.
\<close>

definition NewMigration :: "string option \<Rightarrow> string \<Rightarrow> uint \<Rightarrow> gint \<Rightarrow> err + migration" where
  "NewMigration body identifier version targetVersion =
     Inr \<lparr>Identifier = identifier, Version = version,
          TargetVersion = targetVersion, Body = body\<rparr>"

text \<open>
  What travels through the channel \<open>chan interface{}\<close>: an error, a migration record, or
  a value of any other dynamic type.
\<close>

datatype item = IErr err | IMigr migration | IOther

text \<open>
  How a planner ends: it returns (and the deferred \<open>close(ret)\<close> runs), it panics, or its
  loop has not ended within the fuel given.
\<close>

datatype ending = Closed | Panicked | OutOfFuel

type_synonym plan = "item list \<times> ending"

text \<open>
  A planner is a method of the engine: it returns what it has sent and how it ended,
  with the engine as its calls of \<open>m.stop()\<close> have left it. \<open>emit\<close> puts a value in
  front of what the rest of the run sends.
\<close>

definition emit :: "item \<Rightarrow> plan \<times> 'e \<Rightarrow> plan \<times> 'e" where
  "emit x r = ((x # fst (fst r), snd (fst r)), snd r)"

definition send_close :: "err \<Rightarrow> plan" where
  "send_close e = ([IErr e], Closed)"

section \<open>Database driver and engine state\<close>

text \<open>
  The database driver is an interface too: each method takes the driver's state and
  returns its result with the new state. \<open>Run\<close> receives the target version and the
  buffered body, or no body.
\<close>

record 'd database_driver =
  drv_Lock :: "'d \<Rightarrow> err option \<times> 'd"
  drv_Unlock :: "'d \<Rightarrow> err option \<times> 'd"
  drv_Version :: "'d \<Rightarrow> (err + gint) \<times> 'd"
  drv_Run :: "gint \<Rightarrow> string option \<Rightarrow> 'd \<Rightarrow> err option \<times> 'd"
  drv_Drop :: "'d \<Rightarrow> err option \<times> 'd"

text \<open>
  The calls the engine makes on the database driver, in order. A \<open>Run\<close> entry keeps the
  record that was run: the driver receives its \<open>TargetVersion\<close> and \<open>Body\<close>.
\<close>

datatype call = CLock | CUnlock | CVersion | CRun migration | CDrop

text \<open>
  The engine: the driver's state, the two flags, and the \<open>GracefulStop\<close> channel
  (capacity 1), which holds a pending signal or none. \<open>calls\<close> is the log of driver calls.
\<close>

record 'd engine =
  databaseDrv :: 'd
  isLocked :: bool
  isGracefulStop :: bool
  GracefulStop :: bool
  calls :: "call list"

definition stop :: "'d engine \<Rightarrow> bool \<times> 'd engine" where
  "stop m =
     (if isGracefulStop m then (True, m)
      else if GracefulStop m then (True, m\<lparr>isGracefulStop := True, GracefulStop := False\<rparr>)
      else (False, m))"

section \<open>The arrival of the stop signal\<close>

text \<open>
  The signal is sent into \<open>GracefulStop\<close> by the caller's environment, at a moment of
  its choosing. \<open>deliver\<close> puts it into the channel when it is due.

  The planner runs in its own goroutine and calls \<open>m.stop()\<close> at the top of each loop
  iteration. For the planner the moment of the arrival is a parameter \<open>ps\<close>: \<open>None\<close>
  when no signal arrives while the planner runs, \<open>Some j\<close> when the signal is put into
  the channel just before the planner's call number \<open>j\<close> (from 0) of \<open>m.stop()\<close>.
\<close>

definition deliver :: "bool \<Rightarrow> 'd engine \<Rightarrow> 'd engine" where
  "deliver due m = (if due then m\<lparr>GracefulStop := True\<rparr> else m)"

fun later :: "nat option \<Rightarrow> nat option" where
  "later None = None"
| "later (Some 0) = None"
| "later (Some (Suc j)) = Some j"

section \<open>versionExists, newMigration\<close>

definition versionExists :: "source_driver \<Rightarrow> uint \<Rightarrow> err option" where
  "versionExists s version =
     (case src_ReadUp s version of
        Inr up \<Rightarrow> None
      | Inl e \<Rightarrow>
          if IsExist e then None
          else if \<not> IsNotExist e then Some e
          else (case src_ReadDown s version of
                  Inr down \<Rightarrow> None
                | Inl e' \<Rightarrow>
                    if IsExist e' then None
                    else if \<not> IsNotExist e' then Some e'
                    else Some OsErrNotExist))"

definition newMigration :: "source_driver \<Rightarrow> uint \<Rightarrow> gint \<Rightarrow> err + migration" where
  "newMigration s version targetVersion =
     (if sint version \<le> sint targetVersion then
        (case src_ReadUp s version of
           Inl e \<Rightarrow> if IsNotExist e then NewMigration None [] version targetVersion else Inl e
         | Inr (r, identifier) \<Rightarrow> NewMigration (Some r) identifier version targetVersion)
      else
        (case src_ReadDown s version of
           Inl e \<Rightarrow> if IsNotExist e then NewMigration None [] version targetVersion else Inl e
         | Inr (r, identifier) \<Rightarrow> NewMigration (Some r) identifier version targetVersion))"

text \<open>
  The check that opens all three planners: \<open>from >= 0\<close> and \<open>versionExists\<close> not nil.
  \<open>None\<close> is the panic of \<open>suint\<close>, which the guard excludes.
\<close>

definition absent :: "source_driver \<Rightarrow> gint \<Rightarrow> bool option" where
  "absent s v =
     (if 0 \<le> sint v then
        (case suint v of
           None \<Rightarrow> None
         | Some u \<Rightarrow> Some (versionExists s u \<noteq> None))
      else Some False)"

section \<open>The planners\<close>

subsection \<open>readUp\<close>

fun readUp_loop ::
  "nat \<Rightarrow> source_driver \<Rightarrow> nat option \<Rightarrow> 'd engine \<Rightarrow> gint \<Rightarrow> gint \<Rightarrow> gint \<Rightarrow> plan \<times> 'd engine" where
  "readUp_loop 0 s ps m from limit count = (([], OutOfFuel), m)"
| "readUp_loop (Suc k) s ps m from limit count =
     (if \<not> (sint count < sint limit \<or> limit = - 1) then (([], Closed), m)
      else
        (case stop (deliver (ps = Some 0) m) of
           (True, m1) \<Rightarrow> (([], Closed), m1)
         | (False, m1) \<Rightarrow>
             if from = - 1 then
               (case src_First s of
                  Inl e \<Rightarrow> (send_close e, m1)
                | Inr firstVersion \<Rightarrow>
                    (case newMigration s firstVersion firstVersion of
                       Inl e \<Rightarrow> (send_close e, m1)
                     | Inr migr \<Rightarrow>
                         emit (IMigr migr)
                           (readUp_loop k s (later ps) m1 firstVersion limit (count + 1))))
             else
               (case suint from of
                  None \<Rightarrow> (([], Panicked), m1)
                | Some u \<Rightarrow>
                    (case src_Next s u of
                       Inl e \<Rightarrow>
                         if IsNotExist e then
                           (if limit = - 1 \<and> count = 0 then (send_close ErrNoChange, m1)
                            else if limit = - 1 then (([], Closed), m1)
                            else if 0 < sint limit \<and> count = 0 then (send_close OsErrNotExist, m1)
                            else if sint count < sint limit then
                              (case suint (limit - count) of
                                 None \<Rightarrow> (([], Panicked), m1)
                               | Some short \<Rightarrow> (send_close (ErrShortLimit short), m1))
                            else (send_close e, m1))
                         else (send_close e, m1)
                     | Inr next \<Rightarrow>
                         (case newMigration s next next of
                            Inl e \<Rightarrow> (send_close e, m1)
                          | Inr migr \<Rightarrow>
                              emit (IMigr migr)
                                (readUp_loop k s (later ps) m1 next limit (count + 1)))))))"

definition readUp ::
  "nat \<Rightarrow> source_driver \<Rightarrow> nat option \<Rightarrow> 'd engine \<Rightarrow> gint \<Rightarrow> gint \<Rightarrow> plan \<times> 'd engine" where
  "readUp fuel s ps m from limit =
     (case absent s from of
        None \<Rightarrow> (([], Panicked), m)
      | Some True \<Rightarrow> (send_close OsErrNotExist, m)
      | Some False \<Rightarrow>
          if limit = 0 then (send_close ErrNoChange, m)
          else readUp_loop fuel s ps m from limit 0)"

subsection \<open>readDown\<close>

fun readDown_loop ::
  "nat \<Rightarrow> source_driver \<Rightarrow> nat option \<Rightarrow> 'd engine \<Rightarrow> gint \<Rightarrow> gint \<Rightarrow> gint \<Rightarrow> plan \<times> 'd engine" where
  "readDown_loop 0 s ps m from limit count = (([], OutOfFuel), m)"
| "readDown_loop (Suc k) s ps m from limit count =
     (if \<not> (sint count < sint limit \<or> limit = - 1) then (([], Closed), m)
      else
        (case stop (deliver (ps = Some 0) m) of
           (True, m1) \<Rightarrow> (([], Closed), m1)
         | (False, m1) \<Rightarrow>
             (case suint from of
                None \<Rightarrow> (([], Panicked), m1)
              | Some u \<Rightarrow>
                  (case src_Prev s u of
                     Inl e \<Rightarrow>
                       if IsNotExist e then
                         (if limit = - 1 \<or> 0 < sint (limit - count) then
                            (case src_First s of
                               Inl e1 \<Rightarrow> (send_close e1, m1)
                             | Inr firstVersion \<Rightarrow>
                                 (case newMigration s firstVersion (- 1) of
                                    Inl e2 \<Rightarrow> (send_close e2, m1)
                                  | Inr migr \<Rightarrow>
                                      emit (IMigr migr)
                                        (if sint (count + 1) < sint limit then
                                           (case suint (limit - (count + 1)) of
                                              None \<Rightarrow> (([], Panicked), m1)
                                            | Some short \<Rightarrow>
                                                (send_close (ErrShortLimit short), m1))
                                         else (([], Closed), m1))))
                          else if sint count < sint limit then
                            (case suint (limit - count) of
                               None \<Rightarrow> (([], Panicked), m1)
                             | Some short \<Rightarrow> (send_close (ErrShortLimit short), m1))
                          else (([], Closed), m1))
                       else (send_close e, m1)
                   | Inr prev \<Rightarrow>
                       (case newMigration s u prev of
                          Inl e \<Rightarrow> (send_close e, m1)
                        | Inr migr \<Rightarrow>
                            emit (IMigr migr)
                              (readDown_loop k s (later ps) m1 prev limit (count + 1)))))))"

definition readDown ::
  "nat \<Rightarrow> source_driver \<Rightarrow> nat option \<Rightarrow> 'd engine \<Rightarrow> gint \<Rightarrow> gint \<Rightarrow> plan \<times> 'd engine" where
  "readDown fuel s ps m from limit =
     (case absent s from of
        None \<Rightarrow> (([], Panicked), m)
      | Some True \<Rightarrow> (send_close OsErrNotExist, m)
      | Some False \<Rightarrow>
          if limit = 0 then (send_close ErrNoChange, m)
          else if from = - 1 \<and> limit = - 1 then (send_close ErrNoChange, m)
          else if from = - 1 \<and> 0 < sint limit then (send_close OsErrNotExist, m)
          else readDown_loop fuel s ps m from limit 0)"

subsection \<open>read\<close>

fun read_up_loop ::
  "nat \<Rightarrow> source_driver \<Rightarrow> nat option \<Rightarrow> 'd engine \<Rightarrow> gint \<Rightarrow> gint \<Rightarrow> plan \<times> 'd engine" where
  "read_up_loop 0 s ps m from to = (([], OutOfFuel), m)"
| "read_up_loop (Suc k) s ps m from to =
     (if \<not> sint from < sint to then (([], Closed), m)
      else
        (case stop (deliver (ps = Some 0) m) of
           (True, m1) \<Rightarrow> (([], Closed), m1)
         | (False, m1) \<Rightarrow>
             (case suint from of
                None \<Rightarrow> (([], Panicked), m1)
              | Some u \<Rightarrow>
                  (case src_Next s u of
                     Inl e \<Rightarrow> (send_close e, m1)
                   | Inr next \<Rightarrow>
                       (case newMigration s next next of
                          Inl e \<Rightarrow> (send_close e, m1)
                        | Inr migr \<Rightarrow>
                            emit (IMigr migr) (read_up_loop k s (later ps) m1 next to))))))"

fun read_down_loop ::
  "nat \<Rightarrow> source_driver \<Rightarrow> nat option \<Rightarrow> 'd engine \<Rightarrow> gint \<Rightarrow> gint \<Rightarrow> plan \<times> 'd engine" where
  "read_down_loop 0 s ps m from to = (([], OutOfFuel), m)"
| "read_down_loop (Suc k) s ps m from to =
     (if \<not> (sint to < sint from \<and> 0 \<le> sint from) then (([], Closed), m)
      else
        (case stop (deliver (ps = Some 0) m) of
           (True, m1) \<Rightarrow> (([], Closed), m1)
         | (False, m1) \<Rightarrow>
             (case suint from of
                None \<Rightarrow> (([], Panicked), m1)
              | Some u \<Rightarrow>
                  (case src_Prev s u of
                     Inl e \<Rightarrow>
                       if IsNotExist e \<and> to = - 1 then
                         (case newMigration s u (- 1) of
                            Inl e1 \<Rightarrow> (send_close e1, m1)
                          | Inr migr \<Rightarrow> (([IMigr migr], Closed), m1))
                       else (send_close e, m1)
                   | Inr prev \<Rightarrow>
                       (case newMigration s u prev of
                          Inl e \<Rightarrow> (send_close e, m1)
                        | Inr migr \<Rightarrow>
                            emit (IMigr migr) (read_down_loop k s (later ps) m1 prev to))))))"

definition read ::
  "nat \<Rightarrow> source_driver \<Rightarrow> nat option \<Rightarrow> 'd engine \<Rightarrow> gint \<Rightarrow> gint \<Rightarrow> plan \<times> 'd engine" where
  "read fuel s ps m from to =
     (case absent s from of
        None \<Rightarrow> (([], Panicked), m)
      | Some True \<Rightarrow> (send_close OsErrNotExist, m)
      | Some False \<Rightarrow>
          (case absent s to of
             None \<Rightarrow> (([], Panicked), m)
           | Some True \<Rightarrow> (send_close OsErrNotExist, m)
           | Some False \<Rightarrow>
               if from = to then (send_close ErrNoChange, m)
               else if sint from < sint to then
                 (if from = - 1 then
                    (case src_First s of
                       Inl e \<Rightarrow> (send_close e, m)
                     | Inr firstVersion \<Rightarrow>
                         (case newMigration s firstVersion firstVersion of
                            Inl e \<Rightarrow> (send_close e, m)
                          | Inr migr \<Rightarrow>
                              emit (IMigr migr) (read_up_loop fuel s ps m firstVersion to)))
                  else read_up_loop fuel s ps m from to)
               else read_down_loop fuel s ps m from to))"

section \<open>Locking\<close>

definition lock :: "'d database_driver \<Rightarrow> 'd engine \<Rightarrow> err option \<times> 'd engine" where
  "lock drv m =
     (if \<not> isLocked m then
        (case drv_Lock drv (databaseDrv m) of
           (Some e, d) \<Rightarrow> (Some e, m\<lparr>databaseDrv := d, calls := calls m @ [CLock]\<rparr>)
         | (None, d) \<Rightarrow>
             (None, m\<lparr>databaseDrv := d, calls := calls m @ [CLock], isLocked := True\<rparr>))
      else (Some ErrLocked, m))"

definition unlock :: "'d database_driver \<Rightarrow> 'd engine \<Rightarrow> err option \<times> 'd engine" where
  "unlock drv m =
     (case drv_Unlock drv (databaseDrv m) of
        (Some e, d) \<Rightarrow> (Some e, m\<lparr>databaseDrv := d, calls := calls m @ [CUnlock]\<rparr>)
      | (None, d) \<Rightarrow>
          (None, m\<lparr>databaseDrv := d, calls := calls m @ [CUnlock], isLocked := False\<rparr>))"

text \<open>
  Modelled from the spec: \<open>NewMultiError\<close> and the multi-error's \<open>Error()\<close> (their file is
  not at hand). The multi-error holds the errors it was built from, in order; its
  message is the concatenation of their messages with a separator.
\<close>

definition NewMultiError :: "err option list \<Rightarrow> err" where
  "NewMultiError errs = MultiError errs"

definition unlockErr :: "'d database_driver \<Rightarrow> err option \<Rightarrow> 'd engine \<Rightarrow> err option \<times> 'd engine" where
  "unlockErr drv prevErr m =
     (case unlock drv m of
        (Some e, m') \<Rightarrow> (Some (NewMultiError [prevErr, Some e]), m')
      | (None, m') \<Rightarrow> (prevErr, m'))"

section \<open>The runner\<close>

text \<open>
  What an operation does in the end: it returns an error or nil, it panics with
  \<open>unknown type\<close>, the planner's goroutine panics, or the planner has not ended within
  the fuel given and the runner waits on the channel.
\<close>

datatype outcome = Returned "err option" | UnknownType | PlannerPanicked | NotReturned

text \<open>
  The runner is the goroutine of the caller. For each value it receives it calls
  \<open>m.stop()\<close> and then handles the value. Where in this sequence the signal is put into
  \<open>GracefulStop\<close> is a parameter: \<open>Never\<close> when no signal arrives while the runner runs;
  \<open>Before i\<close> when it arrives before the runner's call number \<open>i\<close> (from 0) of
  \<open>m.stop()\<close>, after the value before it has been handled; \<open>During i\<close> when it arrives
  after that call has reported no stop, while value number \<open>i\<close> is handled and its \<open>Run\<close>
  call is in flight.
\<close>

datatype arrival = Never | Before nat | During nat

fun before_check :: "arrival \<Rightarrow> bool" where
  "before_check (Before 0) = True"
| "before_check a = False"

fun during_step :: "arrival \<Rightarrow> bool" where
  "during_step (During 0) = True"
| "during_step a = False"

fun next_arrival :: "arrival \<Rightarrow> arrival" where
  "next_arrival (Before (Suc i)) = Before i"
| "next_arrival (During (Suc i)) = During i"
| "next_arrival a = Never"

definition run_record :: "'d database_driver \<Rightarrow> migration \<Rightarrow> 'd engine \<Rightarrow> err option \<times> 'd engine" where
  "run_record drv migr m =
     (case drv_Run drv (TargetVersion migr) (Body migr) (databaseDrv m) of
        (r, d) \<Rightarrow> (r, m\<lparr>databaseDrv := d, calls := calls m @ [CRun migr]\<rparr>))"

text \<open>
  When the channel is closed and empty the \<open>range\<close> loop ends without a call of
  \<open>m.stop()\<close>; a signal that has arrived by then stays in \<open>GracefulStop\<close>.
\<close>

fun runMigrations ::
  "'d database_driver \<Rightarrow> arrival \<Rightarrow> item list \<Rightarrow> ending \<Rightarrow> 'd engine \<Rightarrow> outcome \<times> 'd engine" where
  "runMigrations drv sg [] Closed m = (Returned None, deliver (before_check sg) m)"
| "runMigrations drv sg [] Panicked m = (PlannerPanicked, deliver (before_check sg) m)"
| "runMigrations drv sg [] OutOfFuel m = (NotReturned, deliver (before_check sg) m)"
| "runMigrations drv sg (r # rs) e m =
     (case stop (deliver (before_check sg) m) of
        (True, m1) \<Rightarrow> (Returned None, m1)
      | (False, m1) \<Rightarrow>
          (case r of
             IErr er \<Rightarrow> (Returned (Some er), deliver (during_step sg) m1)
           | IMigr migr \<Rightarrow>
               (case run_record drv migr (deliver (during_step sg) m1) of
                  (Some er, m2) \<Rightarrow> (Returned (Some er), m2)
                | (None, m2) \<Rightarrow> runMigrations drv (next_arrival sg) rs e m2)
           | IOther \<Rightarrow> (UnknownType, deliver (during_step sg) m1)))"

section \<open>Planner and runner side by side\<close>

text \<open>
  \<open>go m.read(...)\<close> and \<open>m.runMigrations(ret)\<close> work on the same engine. The planner
  touches only \<open>isGracefulStop\<close> and \<open>GracefulStop\<close>, and only through \<open>m.stop()\<close>; the
  runner also calls the driver. Each call of \<open>m.stop()\<close>, in either goroutine, reports
  no stop until the signal has arrived and a stop from then on, and the first call
  that reports the stop takes the signal out of the channel and sets \<open>isGracefulStop\<close>. So
  each goroutine is run on the engine as the operation has it after \<open>Version()\<close>, with
  its own parameter for the arrival, and \<open>share\<close> gives the engine that the two leave:
  the runner's, with \<open>isGracefulStop\<close> set when either has set it, and the signal
  pending when it has arrived in either run and no call has taken it.
\<close>

definition share :: "'d engine \<Rightarrow> 'd engine \<Rightarrow> 'd engine \<Rightarrow> 'd engine" where
  "share m0 mp mr =
     mr\<lparr>isGracefulStop := isGracefulStop mp \<or> isGracefulStop mr,
        GracefulStop :=
          (if (isGracefulStop mp \<or> isGracefulStop mr) \<and> \<not> isGracefulStop m0 then False
           else GracefulStop mp \<or> GracefulStop mr)\<rparr>"

definition run_plan ::
  "'d database_driver \<Rightarrow> arrival \<Rightarrow> plan \<times> 'd engine \<Rightarrow> 'd engine \<Rightarrow> outcome \<times> 'd engine" where
  "run_plan drv sg p m =
     (case runMigrations drv sg (fst (fst p)) (snd (fst p)) m of
        (out, mr) \<Rightarrow> (out, share m (snd p) mr))"

section \<open>The operations\<close>

definition currentVersion :: "'d database_driver \<Rightarrow> 'd engine \<Rightarrow> (err + gint) \<times> 'd engine" where
  "currentVersion drv m =
     (case drv_Version drv (databaseDrv m) of
        (r, d) \<Rightarrow> (r, m\<lparr>databaseDrv := d, calls := calls m @ [CVersion]\<rparr>))"

text \<open>\<open>return m.unlockErr(...)\<close>, reached only when its argument has been computed.\<close>

definition return_unlockErr :: "'d database_driver \<Rightarrow> outcome \<times> 'd engine \<Rightarrow> outcome \<times> 'd engine" where
  "return_unlockErr drv p =
     (case p of
        (Returned r, m) \<Rightarrow> (case unlockErr drv r m of (r', m') \<Rightarrow> (Returned r', m'))
      | (other, m) \<Rightarrow> (other, m))"

definition Migrate ::
  "'d database_driver \<Rightarrow> source_driver \<Rightarrow> nat \<Rightarrow> nat option \<Rightarrow> arrival \<Rightarrow> uint \<Rightarrow> 'd engine
    \<Rightarrow> outcome \<times> 'd engine" where
  "Migrate drv s fuel ps sg version m =
     (case lock drv m of
        (Some e, m1) \<Rightarrow> (Returned (Some e), m1)
      | (None, m1) \<Rightarrow>
          (case currentVersion drv m1 of
             (Inl e, m2) \<Rightarrow> return_unlockErr drv (Returned (Some e), m2)
           | (Inr curVersion, m2) \<Rightarrow>
               return_unlockErr drv (run_plan drv sg (read fuel s ps m2 curVersion version) m2)))"

definition Steps ::
  "'d database_driver \<Rightarrow> source_driver \<Rightarrow> nat \<Rightarrow> nat option \<Rightarrow> arrival \<Rightarrow> gint \<Rightarrow> 'd engine
    \<Rightarrow> outcome \<times> 'd engine" where
  "Steps drv s fuel ps sg n m =
     (if n = 0 then (Returned (Some ErrNoChange), m)
      else
        (case lock drv m of
           (Some e, m1) \<Rightarrow> (Returned (Some e), m1)
         | (None, m1) \<Rightarrow>
             (case currentVersion drv m1 of
                (Inl e, m2) \<Rightarrow> return_unlockErr drv (Returned (Some e), m2)
              | (Inr curVersion, m2) \<Rightarrow>
                  return_unlockErr drv
                    (run_plan drv sg
                       (if 0 < sint n then readUp fuel s ps m2 curVersion n
                        else readDown fuel s ps m2 curVersion (- n)) m2))))"

definition Up ::
  "'d database_driver \<Rightarrow> source_driver \<Rightarrow> nat \<Rightarrow> nat option \<Rightarrow> arrival \<Rightarrow> 'd engine
    \<Rightarrow> outcome \<times> 'd engine" where
  "Up drv s fuel ps sg m =
     (case lock drv m of
        (Some e, m1) \<Rightarrow> (Returned (Some e), m1)
      | (None, m1) \<Rightarrow>
          (case currentVersion drv m1 of
             (Inl e, m2) \<Rightarrow> return_unlockErr drv (Returned (Some e), m2)
           | (Inr curVersion, m2) \<Rightarrow>
               return_unlockErr drv (run_plan drv sg (readUp fuel s ps m2 curVersion (- 1)) m2)))"

definition Down ::
  "'d database_driver \<Rightarrow> source_driver \<Rightarrow> nat \<Rightarrow> nat option \<Rightarrow> arrival \<Rightarrow> 'd engine
    \<Rightarrow> outcome \<times> 'd engine" where
  "Down drv s fuel ps sg m =
     (case lock drv m of
        (Some e, m1) \<Rightarrow> (Returned (Some e), m1)
      | (None, m1) \<Rightarrow>
          (case currentVersion drv m1 of
             (Inl e, m2) \<Rightarrow> return_unlockErr drv (Returned (Some e), m2)
           | (Inr curVersion, m2) \<Rightarrow>
               return_unlockErr drv (run_plan drv sg (readDown fuel s ps m2 curVersion (- 1)) m2)))"

definition Drop :: "'d database_driver \<Rightarrow> 'd engine \<Rightarrow> outcome \<times> 'd engine" where
  "Drop drv m =
     (case lock drv m of
        (Some e, m1) \<Rightarrow> (Returned (Some e), m1)
      | (None, m1) \<Rightarrow>
          (case drv_Drop drv (databaseDrv m1) of
             (Some e, d) \<Rightarrow>
               return_unlockErr drv
                 (Returned (Some e), m1\<lparr>databaseDrv := d, calls := calls m1 @ [CDrop]\<rparr>)
           | (None, d) \<Rightarrow>
               (case unlock drv (m1\<lparr>databaseDrv := d, calls := calls m1 @ [CDrop]\<rparr>) of
                  (r, m2) \<Rightarrow> (Returned r, m2))))"

text \<open>The five mutating operations under one name, for statements about all of them.\<close>

datatype operation = OpMigrate uint | OpSteps gint | OpUp | OpDown | OpDrop

fun perform ::
  "'d database_driver \<Rightarrow> source_driver \<Rightarrow> nat \<Rightarrow> nat option \<Rightarrow> arrival \<Rightarrow> operation \<Rightarrow> 'd engine
    \<Rightarrow> outcome \<times> 'd engine" where
  "perform drv s fuel ps sg (OpMigrate v) m = Migrate drv s fuel ps sg v m"
| "perform drv s fuel ps sg (OpSteps n) m = Steps drv s fuel ps sg n m"
| "perform drv s fuel ps sg OpUp m = Up drv s fuel ps sg m"
| "perform drv s fuel ps sg OpDown m = Down drv s fuel ps sg m"
| "perform drv s fuel ps sg OpDrop m = Drop drv m"

section \<open>The stub database driver\<close>

record stub =
  CurrentVersion :: gint
  MigrationSequence :: "string list"
  LastRunMigration :: "string option"
  IsLocked :: bool

definition stub_Open :: stub where
  "stub_Open = \<lparr>CurrentVersion = - 1, MigrationSequence = [],
                 LastRunMigration = None, IsLocked = False\<rparr>"

text \<open>
  \<open>database.ErrLocked\<close>, which \<open>Lock\<close> returns on a locked stub, is an error value of
  package \<open>database\<close>; it is kept as an opaque driver error.
\<close>

definition stub_Lock :: "stub \<Rightarrow> err option \<times> stub" where
  "stub_Lock st =
     (if IsLocked st then (Some (DriverErr ''database.ErrLocked''), st)
      else (None, st\<lparr>IsLocked := True\<rparr>))"

definition stub_Unlock :: "stub \<Rightarrow> err option \<times> stub" where
  "stub_Unlock st = (None, st\<lparr>IsLocked := False\<rparr>)"

definition stub_Run :: "gint \<Rightarrow> string option \<Rightarrow> stub \<Rightarrow> err option \<times> stub" where
  "stub_Run version migration st =
     (case migration of
        None \<Rightarrow> (None, st\<lparr>CurrentVersion := version\<rparr>)
      | Some b \<Rightarrow>
          (None, st\<lparr>CurrentVersion := version, LastRunMigration := Some b,
                     MigrationSequence := MigrationSequence st @ [b]\<rparr>))"

definition stub_Version :: "stub \<Rightarrow> (err + gint) \<times> stub" where
  "stub_Version st =
     (if sint (CurrentVersion st) < 0 then (Inr NilVersion, st)
      else (Inr (CurrentVersion st), st))"

definition stub_Drop :: "stub \<Rightarrow> err option \<times> stub" where
  "stub_Drop st =
     (None, st\<lparr>CurrentVersion := - 1, LastRunMigration := None,
                MigrationSequence := MigrationSequence st @ [''DROP'']\<rparr>)"

definition Stub :: "stub database_driver" where
  "Stub = \<lparr>drv_Lock = stub_Lock, drv_Unlock = stub_Unlock, drv_Version = stub_Version,
           drv_Run = stub_Run, drv_Drop = stub_Drop\<rparr>"

definition newCommon :: "'d \<Rightarrow> 'd engine" where
  "newCommon d = \<lparr>databaseDrv = d, isLocked = False, isGracefulStop = False,
                  GracefulStop = False, calls = []\<rparr>"

section \<open>A source index\<close>

text \<open>
  Modelled from the spec: a source driver over an index of versions (the concrete source
  drivers are not at hand). The index lists the versions in the source's order; \<open>First\<close>
  is the first of them, \<open>Next\<close> and \<open>Prev\<close> the neighbours of a version of the index,
  and \<open>ReadUp\<close> and \<open>ReadDown\<close> give the payload and identifier of a version that has
  one. Whatever is missing is \<open>NotExist\<close>.
\<close>

fun next_in :: "uint list \<Rightarrow> uint \<Rightarrow> uint option" where
  "next_in (x # y # r) v = (if x = v then Some y else next_in (y # r) v)"
| "next_in r v = None"

fun prev_in :: "uint list \<Rightarrow> uint \<Rightarrow> uint option" where
  "prev_in (x # y # r) v = (if y = v then Some x else prev_in (y # r) v)"
| "prev_in r v = None"

definition or_NotExist :: "'a option \<Rightarrow> err + 'a" where
  "or_NotExist x = (case x of None \<Rightarrow> Inl OsErrNotExist | Some y \<Rightarrow> Inr y)"

definition index_source ::
  "uint list \<Rightarrow> (uint \<Rightarrow> (string \<times> string) option) \<Rightarrow> (uint \<Rightarrow> (string \<times> string) option)
    \<Rightarrow> source_driver" where
  "index_source vs up down =
     \<lparr>src_First = or_NotExist (case vs of [] \<Rightarrow> None | v # r \<Rightarrow> Some v),
      src_Next = (\<lambda>v. or_NotExist (next_in vs v)),
      src_Prev = (\<lambda>v. or_NotExist (prev_in vs v)),
      src_ReadUp = (\<lambda>v. or_NotExist (if v \<in> set vs then up v else None)),
      src_ReadDown = (\<lambda>v. or_NotExist (if v \<in> set vs then down v else None))\<rparr>"

text \<open>The index of the scenarios: versions 1, 3, 4, 5 and 7, each with both payloads.\<close>

definition scenario_versions :: "uint list" where
  "scenario_versions = [1, 3, 4, 5, 7]"

definition scenario_source :: source_driver where
  "scenario_source =
     index_source scenario_versions (\<lambda>v. Some (''up'', ''u'')) (\<lambda>v. Some (''down'', ''d''))"

definition engine_at :: "gint \<Rightarrow> stub engine" where
  "engine_at v = newCommon (stub_Open\<lparr>CurrentVersion := v\<rparr>)"

text \<open>
  The same index behind a source whose \<open>ReadUp\<close> fails with an error that is neither
  \<open>NotExist\<close> nor \<open>Exist\<close>.
\<close>

definition io_error :: err where
  "io_error = DriverErr ''read tcp: connection reset''"

definition failing_source :: source_driver where
  "failing_source = scenario_source\<lparr>src_ReadUp := (\<lambda>v. Inl io_error)\<rparr>"

section \<open>Error messages\<close>

fun digits :: "nat \<Rightarrow> string" where
  "digits n =
     (if n < 10 then [char_of (48 + n)] else digits (n div 10) @ [char_of (48 + n mod 10)])"

text \<open>
  Modelled from the spec: the multi-error's \<open>Error()\<close> is the concatenation of the
  messages of its (non-nil) members with a separator between them. The other messages
  are those of \<open>fmt.Errorf\<close> and \<open>fmt.Sprintf\<close> in the source and of package \<open>os\<close>.
\<close>

definition separator :: string where
  "separator = '' and ''"

fun Error :: "err \<Rightarrow> string"
  and Errors :: "err option list \<Rightarrow> string list" where
  "Error ErrNoChange = ''no change''"
| "Error ErrNilVersion = ''no migration''"
| "Error ErrLocked = ''database locked''"
| "Error (ErrShortLimit n) = ''limit '' @ digits (unat n) @ '' short''"
| "Error OsErrNotExist = ''file does not exist''"
| "Error OsErrExist = ''file already exists''"
| "Error (PathError p e) = p @ '': '' @ Error e"
| "Error (DriverErr msg) = msg"
| "Error (MultiError errs) = concat (Errors errs)"
| "Errors [] = []"
| "Errors [None] = []"
| "Errors [Some e] = [Error e]"
| "Errors (None # x # r) = Errors (x # r)"
| "Errors (Some e # x # r) = Error e # separator # Errors (x # r)"

section \<open>Notions used in the statements\<close>


text \<open>
  The records of the \<open>Run\<close> calls in a log, and what the driver was handed in them: the
  target version and the body.
\<close>

fun runs :: "call list \<Rightarrow> migration list" where
  "runs [] = []"
| "runs (CRun r # cs) = r # runs cs"
| "runs (c # cs) = runs cs"

definition handed :: "call list \<Rightarrow> (gint \<times> string option) list" where
  "handed cs = map (\<lambda>r. (TargetVersion r, Body r)) (runs cs)"

text \<open>
  The planner that each operation starts, on the engine and the current version.
\<close>

definition plan_of ::
  "operation \<Rightarrow> nat \<Rightarrow> source_driver \<Rightarrow> nat option \<Rightarrow> 'd engine \<Rightarrow> gint \<Rightarrow> plan \<times> 'd engine" where
  "plan_of op fuel s ps m cur =
     (case op of
        OpMigrate v \<Rightarrow> read fuel s ps m cur v
      | OpSteps n \<Rightarrow>
          if 0 < sint n then readUp fuel s ps m cur n else readDown fuel s ps m cur (- n)
      | OpUp \<Rightarrow> readUp fuel s ps m cur (- 1)
      | OpDown \<Rightarrow> readDown fuel s ps m cur (- 1)
      | OpDrop \<Rightarrow> (([], Closed), m))"

text \<open>
  The primary step of a mutating operation: what it does between \<open>m.lock()\<close> and the
  unlock, on the locked engine. For \<open>Drop\<close> that is the driver's \<open>Drop\<close>; for the others
  the driver's \<open>Version\<close>, the planner and the runner.
\<close>

definition primary ::
  "'d database_driver \<Rightarrow> source_driver \<Rightarrow> nat \<Rightarrow> nat option \<Rightarrow> arrival \<Rightarrow> operation \<Rightarrow> 'd engine
    \<Rightarrow> outcome \<times> 'd engine" where
  "primary drv s fuel ps sg op m =
     (case op of
        OpDrop \<Rightarrow>
          (case drv_Drop drv (databaseDrv m) of
             (x, d) \<Rightarrow> (Returned x, m\<lparr>databaseDrv := d, calls := calls m @ [CDrop]\<rparr>))
      | _ \<Rightarrow>
          (case currentVersion drv m of
             (Inl e, m2) \<Rightarrow> (Returned (Some e), m2)
           | (Inr cur, m2) \<Rightarrow> run_plan drv sg (plan_of op fuel s ps m2 cur) m2))"

text \<open>
  What an operation returns after a primary step that returned \<open>r\<close>, given what the
  unlock returned: \<open>Drop\<close> returns the result of \<open>m.unlock()\<close> after a driver \<open>Drop\<close> that
  succeeded, every other path goes through \<open>m.unlockErr\<close>.
\<close>

definition composed :: "operation \<Rightarrow> err option \<Rightarrow> err option \<Rightarrow> err option" where
  "composed op r u =
     (case u of
        None \<Rightarrow> r
      | Some e \<Rightarrow> if op = OpDrop \<and> r = None then Some e else Some (NewMultiError [r, Some e]))"


text \<open>What the runner returns for the values a planner sends after its records.\<close>

fun verdict :: "item list \<Rightarrow> ending \<Rightarrow> outcome" where
  "verdict [] Closed = Returned None"
| "verdict [] Panicked = PlannerPanicked"
| "verdict [] OutOfFuel = NotReturned"
| "verdict (IErr e # rest) en = Returned (Some e)"
| "verdict (IMigr m # rest) en = NotReturned"
| "verdict (IOther # rest) en = UnknownType"

text \<open>The stub driver with an \<open>Unlock\<close> that fails, and with a \<open>Run\<close> that fails at target 3.\<close>

definition unlock_error :: err where
  "unlock_error = DriverErr ''pq: advisory unlock failed''"

definition stuck_driver :: "stub database_driver" where
  "stuck_driver = Stub\<lparr>drv_Unlock := (\<lambda>st. (Some unlock_error, st))\<rparr>"




text \<open>
  The source's \<open>Next\<close> chain from a version: \<open>Next\<close> gives the listed versions one
  after the other, each at most the largest \<open>int\<close> and each with the record that
  \<open>newMigration\<close> builds for it, and is then exhausted (\<open>NotExist\<close>).
\<close>

fun up_chain :: "source_driver \<Rightarrow> uint \<Rightarrow> (uint \<times> migration) list \<Rightarrow> bool" where
  "up_chain s u [] = (case src_Next s u of Inl e \<Rightarrow> IsNotExist e | Inr v \<Rightarrow> False)"
| "up_chain s u ((v, m) # r) =
     (src_Next s u = Inr v \<and> 0 \<le> sint v \<and> newMigration s v v = Inr m \<and> up_chain s v r)"

text \<open>
  The source's \<open>Prev\<close> chain from a version down to the first one, with the records that
  \<open>newMigration\<close> builds on the way: the last record is the one for \<open>First()\<close> with target
  -1, sent when \<open>Prev\<close> is exhausted.
\<close>

fun down_chain :: "source_driver \<Rightarrow> uint \<Rightarrow> migration list \<Rightarrow> bool" where
  "down_chain s u [] = False"
| "down_chain s u [m] =
     ((case src_Prev s u of Inl e \<Rightarrow> IsNotExist e | Inr p \<Rightarrow> False) \<and>
      (case src_First s of Inl e \<Rightarrow> False | Inr f \<Rightarrow> newMigration s f (- 1) = Inr m))"
| "down_chain s u (m # m' # r) =
     (case src_Prev s u of
        Inl e \<Rightarrow> False
      | Inr p \<Rightarrow> 0 \<le> sint p \<and> newMigration s u p = Inr m \<and> down_chain s p (m' # r))"

text \<open>
  What \<open>readDown\<close> sends after its last record with limit -1: nothing, unless the
  counter has wrapped below -1.
\<close>

definition short_tail :: "gint \<Rightarrow> item list" where
  "short_tail c = (if sint c < - 1 then [IErr (ErrShortLimit (- 1 - c))] else [])"

text \<open>
  What the statements read from an engine on the stub driver.
\<close>

definition summary :: "stub engine \<Rightarrow> gint \<times> string list \<times> bool \<times> bool \<times> bool \<times> bool \<times> call list" where
  "summary m = (CurrentVersion (databaseDrv m), MigrationSequence (databaseDrv m),
                IsLocked (databaseDrv m), isLocked m, isGracefulStop m, GracefulStop m, calls m)"

text \<open>
  The engine after the runner has run the given records on the stub driver.
\<close>

definition apply_runs :: "migration list \<Rightarrow> stub engine \<Rightarrow> stub engine" where
  "apply_runs recs m = fold (\<lambda>r m. snd (run_record Stub r m)) recs m"

text \<open>
  The records that \<open>newMigration\<close> builds over a source index: for an up step of a
  version, and for a down step of a version to a target.
\<close>

definition up_record :: "(uint \<Rightarrow> (string \<times> string) option) \<Rightarrow> uint \<Rightarrow> migration" where
  "up_record up v =
     (case up v of
        None \<Rightarrow> \<lparr>Identifier = [], Version = v, TargetVersion = v, Body = None\<rparr>
      | Some (b, i) \<Rightarrow> \<lparr>Identifier = i, Version = v, TargetVersion = v, Body = Some b\<rparr>)"

definition down_record :: "(uint \<Rightarrow> (string \<times> string) option) \<Rightarrow> uint \<Rightarrow> gint \<Rightarrow> migration" where
  "down_record down v t =
     (case down v of
        None \<Rightarrow> \<lparr>Identifier = [], Version = v, TargetVersion = t, Body = None\<rparr>
      | Some (b, i) \<Rightarrow> \<lparr>Identifier = i, Version = v, TargetVersion = t, Body = Some b\<rparr>)"

text \<open>
  The down steps through a descending list of versions: each version with the next one
  as target, the last with target -1.
\<close>

fun down_steps :: "uint list \<Rightarrow> (uint \<times> gint) list" where
  "down_steps [] = []"
| "down_steps [v] = [(v, - 1)]"
| "down_steps (v # w # r) = (v, w) # down_steps (w # r)"

text \<open>
  A step of the round trip is a version with a direction. In the source index it has a
  payload: the body of the version's up or down migration, if it has one.
\<close>

datatype direction = DUp | DDown

fun flip :: "uint \<times> direction \<Rightarrow> uint \<times> direction" where
  "flip (v, DUp) = (v, DDown)"
| "flip (v, DDown) = (v, DUp)"

fun payload ::
  "(uint \<Rightarrow> (string \<times> string) option) \<Rightarrow> (uint \<Rightarrow> (string \<times> string) option)
    \<Rightarrow> uint \<times> direction \<Rightarrow> string option" where
  "payload up down (v, DUp) = map_option fst (up v)"
| "payload up down (v, DDown) = map_option fst (down v)"

text \<open>
  The bodies that are not nil: the stub's \<open>Run\<close> appends these to its
  \<open>MigrationSequence\<close>.
\<close>

fun non_nil :: "'a option list \<Rightarrow> 'a list" where
  "non_nil [] = []"
| "non_nil (None # bs) = non_nil bs"
| "non_nil (Some b # bs) = b # non_nil bs"

text \<open>
  An index with the single version 18446744073709551615, the largest \<open>uint\<close>.
\<close>

definition max_uint_source :: source_driver where
  "max_uint_source =
     index_source [18446744073709551615] (\<lambda>v. Some (''up'', ''u'')) (\<lambda>v. Some (''down'', ''d''))"


section \<open>Properties\<close>

subsection \<open>Helper facts\<close>

lemma absent_eq: "absent s v = Some (0 \<le> sint v \<and> versionExists s v \<noteq> None)"
  by (auto simp: absent_def suint_def)

lemma deliver_False: "deliver False m = m"
  by (simp add: deliver_def)

lemma stop_quiet: "\<not> isGracefulStop m \<Longrightarrow> \<not> GracefulStop m \<Longrightarrow> stop m = (False, m)"
  by (simp add: stop_def)

lemma readUp_loop_no_other:
  "IOther \<notin> set (fst (fst (readUp_loop k s ps m from limit count)))"
proof (induction k arbitrary: ps m "from" count)
  case 0
  show ?case by simp
next
  case (Suc k)
  obtain b m1 where st: "stop (deliver (ps = Some 0) m) = (b, m1)"
    by (cases "stop (deliver (ps = Some 0) m)")
  show ?case
    using Suc.IH [of "later ps" m1] st
    by (cases b) (auto simp: emit_def send_close_def split: sum.splits option.splits)
qed

lemma readDown_loop_no_other:
  "IOther \<notin> set (fst (fst (readDown_loop k s ps m from limit count)))"
proof (induction k arbitrary: ps m "from" count)
  case 0
  show ?case by simp
next
  case (Suc k)
  obtain b m1 where st: "stop (deliver (ps = Some 0) m) = (b, m1)"
    by (cases "stop (deliver (ps = Some 0) m)")
  show ?case
    using Suc.IH [of "later ps" m1] st
    by (cases b) (auto simp: emit_def send_close_def split: sum.splits option.splits)
qed

lemma read_up_loop_no_other:
  "IOther \<notin> set (fst (fst (read_up_loop k s ps m from to)))"
proof (induction k arbitrary: ps m "from")
  case 0
  show ?case by simp
next
  case (Suc k)
  obtain b m1 where st: "stop (deliver (ps = Some 0) m) = (b, m1)"
    by (cases "stop (deliver (ps = Some 0) m)")
  show ?case
    using Suc.IH [of "later ps" m1] st
    by (cases b) (auto simp: emit_def send_close_def split: sum.splits option.splits)
qed

lemma read_down_loop_no_other:
  "IOther \<notin> set (fst (fst (read_down_loop k s ps m from to)))"
proof (induction k arbitrary: ps m "from")
  case 0
  show ?case by simp
next
  case (Suc k)
  obtain b m1 where st: "stop (deliver (ps = Some 0) m) = (b, m1)"
    by (cases "stop (deliver (ps = Some 0) m)")
  show ?case
    using Suc.IH [of "later ps" m1] st
    by (cases b) (auto simp: emit_def send_close_def split: sum.splits option.splits)
qed

lemma readUp_no_other: "IOther \<notin> set (fst (fst (readUp k s ps m from limit)))"
  by (auto simp: readUp_def send_close_def readUp_loop_no_other
      split: option.splits bool.splits)

lemma readDown_no_other: "IOther \<notin> set (fst (fst (readDown k s ps m from limit)))"
  by (auto simp: readDown_def send_close_def readDown_loop_no_other
      split: option.splits bool.splits)

lemma read_no_other: "IOther \<notin> set (fst (fst (read k s ps m from to)))"
  by (auto simp: read_def send_close_def emit_def read_up_loop_no_other
      read_down_loop_no_other split: option.splits bool.splits sum.splits)

lemma runMigrations_known:
  "IOther \<notin> set rs \<Longrightarrow> fst (runMigrations drv sg rs e m) \<noteq> UnknownType"
proof (induction rs arbitrary: sg m)
  case Nil
  then show ?case by (cases e) simp_all
next
  case (Cons r rs)
  then show ?case
    by (cases r) (auto split: prod.splits bool.splits option.splits)
qed

lemma run_plan_fst:
  "fst (run_plan drv sg p m) = fst (runMigrations drv sg (fst (fst p)) (snd (fst p)) m)"
  by (cases "runMigrations drv sg (fst (fst p)) (snd (fst p)) m") (simp add: run_plan_def)

lemma run_plan_snd:
  "snd (run_plan drv sg p m) =
     share m (snd p) (snd (runMigrations drv sg (fst (fst p)) (snd (fst p)) m))"
  by (cases "runMigrations drv sg (fst (fst p)) (snd (fst p)) m") (simp add: run_plan_def)

lemma run_plan_known:
  "IOther \<notin> set (fst (fst p)) \<Longrightarrow> fst (run_plan drv sg p m) \<noteq> UnknownType"
  by (simp add: run_plan_fst runMigrations_known)

subsection \<open>Steps(0)\<close>

text \<open>
  Claim C10. \<open>Steps(0)\<close> returns \<open>ErrNoChange\<close> before it takes the lock: the engine it
  leaves is the engine it found, with the driver's state and the log of driver calls
  (\<open>Lock\<close>, \<open>Unlock\<close>, \<open>Version\<close>, \<open>Run\<close>) untouched, whatever the driver, the source and
  the timing of a stop signal.
\<close>

theorem Steps_zero_no_driver_call:
  "Steps drv s fuel ps sg 0 m = (Returned (Some ErrNoChange), m)"
  by (simp add: Steps_def)

subsection \<open>Limit 0 and the presence check\<close>




subsection \<open>An I/O error during the presence check\<close>

text \<open>
  Claim C4 at a failing input. \<open>ReadUp\<close> fails with an I/O error. \<open>versionExists\<close> hands
  that error back as it is, but each planner tests the result only against nil and
  sends \<open>os.ErrNotExist\<close>; \<open>Steps(1)\<close> at version 3 returns \<open>os.ErrNotExist\<close>.
\<close>

theorem presence_check_loses_io_error:
  "versionExists failing_source 3 = Some io_error \<and>
   fst (read 5 failing_source None (engine_at 3) 3 4) = ([IErr OsErrNotExist], Closed) \<and>
   fst (readUp 5 failing_source None (engine_at 3) 3 1) = ([IErr OsErrNotExist], Closed) \<and>
   fst (readDown 5 failing_source None (engine_at 3) 3 1) = ([IErr OsErrNotExist], Closed) \<and>
   fst (Steps Stub failing_source 5 None Never 1 (engine_at 3)) = Returned (Some OsErrNotExist)"
proof -
  have v: "versionExists failing_source 3 = Some io_error"
    by (simp add: versionExists_def failing_source_def io_error_def IsExist_def
        IsNotExist_def)
  have r: "fst (read 5 failing_source None (engine_at 3) 3 4) = ([IErr OsErrNotExist], Closed)"
    "fst (readUp 5 failing_source None (engine_at 3) 3 1) = ([IErr OsErrNotExist], Closed)"
    "fst (readDown 5 failing_source None (engine_at 3) 3 1) = ([IErr OsErrNotExist], Closed)"
    by (simp_all add: read_def readUp_def readDown_def absent_eq v send_close_def)
  have "fst (Steps Stub failing_source 5 None Never 1 (engine_at 3))
          = Returned (Some OsErrNotExist)"
    by code_simp
  with v r show ?thesis
    by simp
qed

subsection \<open>What the planners send\<close>

text \<open>
  Claim C8. Every value that \<open>read\<close>, \<open>readUp\<close> and \<open>readDown\<close> send is an error or a
  migration record, never a value of another type; so the runner, fed by any of the
  three, never reaches \<open>panic("unknown type")\<close>.
\<close>

theorem planners_send_errors_and_records:
  "IOther \<notin> set (fst (fst (read fuel s ps mp from to))) \<and>
   IOther \<notin> set (fst (fst (readUp fuel s ps mp from limit))) \<and>
   IOther \<notin> set (fst (fst (readDown fuel s ps mp from limit))) \<and>
   fst (run_plan drv sg (read fuel s ps mp from to) m) \<noteq> UnknownType \<and>
   fst (run_plan drv sg (readUp fuel s ps mp from limit) m) \<noteq> UnknownType \<and>
   fst (run_plan drv sg (readDown fuel s ps mp from limit) m) \<noteq> UnknownType"
  by (simp add: run_plan_known read_no_other readUp_no_other readDown_no_other)

subsection \<open>The log of driver calls\<close>


lemma deliver_keeps:
  "calls (deliver b m) = calls m \<and> isLocked (deliver b m) = isLocked m \<and>
   databaseDrv (deliver b m) = databaseDrv m"
  by (simp add: deliver_def)

lemma share_keeps:
  "calls (share m0 mp mr) = calls mr \<and> isLocked (share m0 mp mr) = isLocked mr \<and>
   databaseDrv (share m0 mp mr) = databaseDrv mr"
  by (simp add: share_def)





lemma lock_ok:
  "lock drv m = (None, m1) \<Longrightarrow> calls m1 = calls m @ [CLock] \<and> isLocked m1"
  by (auto simp: lock_def split: if_splits prod.splits option.splits)



lemma perform_primary:
  assumes l: "lock drv m = (None, m1)"
    and n: "op \<noteq> OpSteps 0"
    and p: "primary drv s fuel ps sg op m1 = (Returned r, m2)"
  shows "perform drv s fuel ps sg op m =
           (Returned (composed op r (fst (unlock drv m2))), snd (unlock drv m2))"
proof -
  obtain u m3 where u: "unlock drv m2 = (u, m3)" by (cases "unlock drv m2")
  have ue: "return_unlockErr drv (Returned r, m2) = (Returned (composed op r u), m3)"
    if "op \<noteq> OpDrop \<or> r \<noteq> None"
    using that u by (cases u) (auto simp: return_unlockErr_def unlockErr_def composed_def)
  show ?thesis
  proof (cases op)
    case (OpMigrate v)
    with l p ue u show ?thesis
      by (auto simp: Migrate_def primary_def plan_of_def split: prod.splits sum.splits)
  next
    case (OpSteps k)
    with l p n ue u show ?thesis
      by (auto simp: Steps_def primary_def plan_of_def split: prod.splits sum.splits)
  next
    case OpUp
    with l p ue u show ?thesis
      by (auto simp: Up_def primary_def plan_of_def split: prod.splits sum.splits)
  next
    case OpDown
    with l p ue u show ?thesis
      by (auto simp: Down_def primary_def plan_of_def split: prod.splits sum.splits)
  next
    case OpDrop
    obtain x d where dd: "drv_Drop drv (databaseDrv m1) = (x, d)"
      by (cases "drv_Drop drv (databaseDrv m1)")
    with p OpDrop have r: "x = r" "m2 = m1\<lparr>databaseDrv := d, calls := calls m1 @ [CDrop]\<rparr>"
      by (simp_all add: primary_def)
    show ?thesis
    proof (cases r)
      case None
      with OpDrop l dd r u show ?thesis by (simp add: Drop_def composed_def split: option.splits)
    next
      case (Some e)
      with OpDrop l dd r u ue show ?thesis by (simp add: Drop_def)
    qed
  qed
qed


lemma runMigrations_isLocked: "isLocked (snd (runMigrations drv sg rs e m)) = isLocked m"
proof (induction rs arbitrary: sg m)
  case Nil
  show ?case by (cases e) (simp_all add: deliver_keeps)
next
  case (Cons r rs)
  then show ?case
    by (cases r)
       (auto simp: stop_def deliver_def run_record_def split: prod.splits option.splits)
qed

lemma primary_isLocked: "isLocked (snd (primary drv s fuel ps sg op m)) = isLocked m"
  by (cases op)
     (auto simp: primary_def currentVersion_def run_plan_snd share_keeps runMigrations_isLocked
       split: prod.splits sum.splits)

subsection \<open>Lock discipline\<close>



subsection \<open>Error composition\<close>

text \<open>
  Claim C7. Take any mutating operation on an engine on which \<open>m.lock()\<close> succeeds. If
  its primary step fails with \<open>e1\<close> and the driver's \<open>Unlock\<close> then fails with \<open>e2\<close>, the
  operation returns the multi-error of \<open>e1\<close> and \<open>e2\<close>, whose message contains the
  message of \<open>e1\<close> and the message of \<open>e2\<close>, and \<open>isLocked\<close> is still set.
\<close>

theorem unlock_failure_composed:
  assumes l: "fst (lock drv m) = None"
    and n: "op \<noteq> OpSteps 0"
    and p: "fst (primary drv s fuel ps sg op (snd (lock drv m))) = Returned (Some e1)"
    and u: "fst (drv_Unlock drv (databaseDrv (snd (primary drv s fuel ps sg op (snd (lock drv m))))))
              = Some e2"
  shows "fst (perform drv s fuel ps sg op m) = Returned (Some (MultiError [Some e1, Some e2])) \<and>
         isLocked (snd (perform drv s fuel ps sg op m)) \<and>
         (\<exists>a b. Error (MultiError [Some e1, Some e2]) = a @ Error e1 @ b) \<and>
         (\<exists>a b. Error (MultiError [Some e1, Some e2]) = a @ Error e2 @ b)"
proof -
  define m1 where "m1 = snd (lock drv m)"
  define m2 where "m2 = snd (primary drv s fuel ps sg op m1)"
  have l': "lock drv m = (None, m1)" using l by (simp add: m1_def prod_eq_iff)
  have p': "primary drv s fuel ps sg op m1 = (Returned (Some e1), m2)"
    using p by (simp add: m1_def m2_def prod_eq_iff)
  have locked2: "isLocked m2"
    using primary_isLocked [of drv s fuel ps sg op m1] lock_ok [OF l'] by (simp add: m2_def)
  obtain d where u': "drv_Unlock drv (databaseDrv m2) = (Some e2, d)"
    using u by (cases "drv_Unlock drv (databaseDrv m2)") (simp add: m1_def m2_def)
  have un: "unlock drv m2 = (Some e2, m2\<lparr>databaseDrv := d, calls := calls m2 @ [CUnlock]\<rparr>)"
    using u' by (simp add: unlock_def)
  have res: "perform drv s fuel ps sg op m =
      (Returned (Some (MultiError [Some e1, Some e2])),
       m2\<lparr>databaseDrv := d, calls := calls m2 @ [CUnlock]\<rparr>)"
    using perform_primary [OF l' n p'] un by (simp add: composed_def NewMultiError_def)
  have "Error (MultiError [Some e1, Some e2]) = [] @ Error e1 @ (separator @ Error e2)"
    by simp
  then have c1: "\<exists>a b. Error (MultiError [Some e1, Some e2]) = a @ Error e1 @ b" by blast
  have "Error (MultiError [Some e1, Some e2]) = (Error e1 @ separator) @ Error e2 @ []"
    by simp
  then have c2: "\<exists>a b. Error (MultiError [Some e1, Some e2]) = a @ Error e2 @ b" by blast
  from res locked2 c1 c2 show ?thesis by simp
qed

theorem unlock_failure_composed_witness:
  "fst (lock stuck_driver (engine_at 3)) = None \<and> OpSteps 10 \<noteq> OpSteps 0 \<and>
   fst (perform stuck_driver scenario_source 20 None Never (OpSteps 10) (engine_at 3))
     = Returned (Some (MultiError [Some (ErrShortLimit 7), Some unlock_error])) \<and>
   isLocked (snd (perform stuck_driver scenario_source 20 None Never (OpSteps 10) (engine_at 3))) \<and>
   Error (MultiError [Some (ErrShortLimit 7), Some unlock_error])
     = ''limit 7 short and pq: advisory unlock failed''"
proof -
  have h1: "fst (lock stuck_driver (engine_at 3)) = None"
    by code_simp
  have h2: "OpSteps 10 \<noteq> OpSteps 0"
    by simp
  have h3: "fst (primary stuck_driver scenario_source 20 None Never (OpSteps 10)
                  (snd (lock stuck_driver (engine_at 3))))
              = Returned (Some (ErrShortLimit 7))"
    by code_simp
  have h4: "fst (drv_Unlock stuck_driver
                  (databaseDrv (snd (primary stuck_driver scenario_source 20 None Never
                     (OpSteps 10) (snd (lock stuck_driver (engine_at 3)))))))
              = Some unlock_error"
    by code_simp
  have h5: "Error (MultiError [Some (ErrShortLimit 7), Some unlock_error])
              = ''limit 7 short and pq: advisory unlock failed''"
    by code_simp
  from unlock_failure_composed [OF h1 h2 h3 h4] h1 h5 show ?thesis
    by simp
qed

subsection \<open>Targets of the absolute planner\<close>
















subsection \<open>The up planner runs short\<close>

lemma sint_succ:
  fixes c n :: gint
  assumes "sint c < sint n"
  shows "sint (c + 1) = sint c + 1"
proof -
  have "sint n < 2 ^ 63" using sint_lt [of n] by simp
  moreover have "- (2 ^ 63) \<le> sint c" using sint_ge [of c] by simp
  ultimately have "- (2 ^ 63) \<le> sint c + 1" "sint c + 1 < 2 ^ 63" using assms by auto
  then have "signed_take_bit 63 (sint c + 1) = sint c + 1"
    by (simp add: signed_take_bit_int_eq_self)
  then show ?thesis by (simp add: sint_word_ariths)
qed

lemma sint_diff:
  fixes c n :: gint
  assumes "0 \<le> sint c" "sint c \<le> sint n"
  shows "sint (n - c) = sint n - sint c"
proof -
  have "sint n < 2 ^ 63" using sint_lt [of n] by simp
  with assms have "- (2 ^ 63) \<le> sint n - sint c" "sint n - sint c < 2 ^ 63" by auto
  then have "signed_take_bit 63 (sint n - sint c) = sint n - sint c"
    by (simp add: signed_take_bit_int_eq_self)
  then show ?thesis by (simp add: sint_word_ariths)
qed

lemma nonneg_not_nil: "0 \<le> sint (v :: gint) \<Longrightarrow> v \<noteq> - 1"
  by auto

lemma suint_nonneg: "0 \<le> sint v \<Longrightarrow> suint v = Some v"
  by (simp add: suint_def)

lemma stop_None:
  "\<not> isGracefulStop m \<Longrightarrow> \<not> GracefulStop m \<Longrightarrow> stop (deliver (None = Some (0 :: nat)) m) = (False, m)"
  by (simp add: deliver_False stop_quiet)

lemma readUp_loop_short:
  assumes "up_chain s from vms" "0 \<le> sint from" "0 \<le> sint count"
    "sint count + int (length vms) < sint limit" "0 < sint count + int (length vms)"
    "length vms < fuel" "\<not> isGracefulStop m" "\<not> GracefulStop m"
  shows "readUp_loop fuel s None m from limit count =
           ((map (\<lambda>p. IMigr (snd p)) vms @
              [IErr (ErrShortLimit (limit - (count + of_nat (length vms))))], Closed), m)"
  using assms
proof (induction vms arbitrary: fuel "from" count)
  case Nil
  then obtain k where k: "fuel = Suc k" by (cases fuel) auto
  from Nil obtain e where e: "src_Next s from = Inl e" "IsNotExist e"
    by (auto split: sum.splits)
  from Nil have lim: "sint count < sint limit" "0 < sint count" by auto
  then have c0: "count \<noteq> 0" "limit \<noteq> - 1" "0 < sint limit" by auto
  have "sint (limit - count) = sint limit - sint count"
    using lim by (intro sint_diff) auto
  then have sh: "suint (limit - count) = Some (limit - count)"
    using lim by (simp add: suint_def)
  have st: "stop (deliver (None = Some (0 :: nat)) m) = (False, m)"
    using Nil.prems by (intro stop_None)
  show ?case
    using k e lim c0 sh Nil.prems(2) st
    by (simp add: suint_nonneg nonneg_not_nil send_close_def)
next
  case (Cons p vms)
  obtain v x where p: "p = (v, x)" by (cases p)
  from Cons.prems obtain k where k: "fuel = Suc k" "length vms < k" by (cases fuel) auto
  from Cons.prems p have ch: "src_Next s from = Inr v" "0 \<le> sint v" "newMigration s v v = Inr x"
    "up_chain s v vms" by auto
  from Cons.prems have lim: "sint count < sint limit" by auto
  have s1: "sint (count + 1) = sint count + 1" using lim by (rule sint_succ)
  have st: "stop (deliver (None = Some (0 :: nat)) m) = (False, m)"
    using Cons.prems by (intro stop_None)
  have ih: "readUp_loop k s None m v limit (count + 1) =
           ((map (\<lambda>p. IMigr (snd p)) vms @
              [IErr (ErrShortLimit (limit - (count + 1 + of_nat (length vms))))], Closed), m)"
    using Cons.prems s1 k ch by (intro Cons.IH) auto
  show ?case
    using k ch lim ih p Cons.prems(2) st
    by (simp add: suint_nonneg nonneg_not_nil emit_def add.assoc)
qed

lemma sint_of_nat_small:
  assumes "int c < sint (limit :: gint)"
  shows "sint (of_nat c :: gint) = int c"
proof -
  have "sint limit < 2 ^ 63" using sint_lt [of limit] by simp
  with assms have "int c < 2 ^ 63" by simp
  then have "signed_take_bit 63 (int c) = int c"
    by (simp add: signed_take_bit_int_eq_self)
  then show ?thesis by (simp add: signed_of_nat)
qed

lemma unat_nonneg:
  assumes "0 \<le> sint (x :: gint)"
  shows "unat x = nat (sint x)"
proof -
  have "sint x < 2 ^ 64" using sint_lt [of x] by simp
  with assms have "take_bit 64 (sint x) = sint x"
    by (simp add: take_bit_int_eq_self)
  then have "uint x = sint x" using uint_sint [of x] by simp
  moreover have "unat x = nat (uint x)" by (rule unat_eq_nat_uint)
  ultimately show ?thesis by (simp only:)
qed

lemma short_value:
  assumes "int c < sint (limit :: gint)"
  shows "unat (limit - of_nat c) = nat (sint limit) - c"
proof -
  have c: "sint (of_nat c :: gint) = int c" using assms by (rule sint_of_nat_small)
  have "sint (limit - of_nat c) = sint limit - sint (of_nat c :: gint)"
    using assms c by (intro sint_diff) auto
  with c have d: "sint (limit - of_nat c) = sint limit - int c" by simp
  with assms have "0 \<le> sint (limit - of_nat c)" by simp
  then have "unat (limit - of_nat c) = nat (sint (limit - of_nat c))" by (rule unat_nonneg)
  with d show ?thesis by (simp add: nat_diff_distrib')
qed

text \<open>
  Claim C3. An up plan with a positive limit \<open>n\<close> starts from a present version; no stop
  signal is pending, has been taken or arrives. If the source's \<open>Next\<close> chain is
  exhausted after \<open>c\<close> records, with \<open>0 < c < n\<close>, the planner sends these \<open>c\<close> records,
  then \<open>ErrShortLimit{n - c}\<close> as its last value, and closes, leaving the engine as it
  was. At the level of one iteration: whenever the loop stands at a counter \<open>c\<close> with
  \<open>0 < c < n\<close>, \<open>m.stop()\<close> reports false and \<open>Next\<close> returns \<open>NotExist\<close>, it sends
  \<open>ErrShortLimit{n - c}\<close> and closes. With versions 1, 3, 4, 5, 7 and the database at
  3, \<open>Steps(10)\<close> makes the driver calls \<open>Lock\<close>, \<open>Version\<close>, \<open>Run(4)\<close>, \<open>Run(5)\<close>,
  \<open>Run(7)\<close>, \<open>Unlock\<close> and returns \<open>ErrShortLimit{7}\<close>.
\<close>

theorem readUp_short_limit:
  "(0 \<le> sint from \<and> versionExists s from = None \<and> up_chain s from vms \<and> vms \<noteq> [] \<and>
    int (length vms) < sint limit \<and> length vms < fuel \<and>
    \<not> isGracefulStop m \<and> \<not> GracefulStop m
    \<longrightarrow> readUp fuel s None m from limit =
          ((map (\<lambda>p. IMigr (snd p)) vms @
             [IErr (ErrShortLimit (limit - of_nat (length vms)))], Closed), m) \<and>
        unat (limit - of_nat (length vms)) = nat (sint limit) - length vms) \<and>
   (0 < sint count \<and> sint count < sint limit \<and> \<not> fst (stop (deliver (ps = Some 0) m)) \<and>
    0 \<le> sint v \<and> src_Next s v = Inl e \<and> IsNotExist e
    \<longrightarrow> readUp_loop (Suc k) s ps m v limit count =
          (([IErr (ErrShortLimit (limit - count))], Closed),
           snd (stop (deliver (ps = Some 0) m)))) \<and>
   fst (Steps Stub scenario_source 20 None Never 10 (engine_at 3))
     = Returned (Some (ErrShortLimit 7)) \<and>
   calls (snd (Steps Stub scenario_source 20 None Never 10 (engine_at 3))) =
     [CLock, CVersion,
      CRun \<lparr>Identifier = ''u'', Version = 4, TargetVersion = 4, Body = Some ''up''\<rparr>,
      CRun \<lparr>Identifier = ''u'', Version = 5, TargetVersion = 5, Body = Some ''up''\<rparr>,
      CRun \<lparr>Identifier = ''u'', Version = 7, TargetVersion = 7, Body = Some ''up''\<rparr>,
      CUnlock]"
proof -
  have general: "readUp fuel s None m from limit =
          ((map (\<lambda>p. IMigr (snd p)) vms @
             [IErr (ErrShortLimit (limit - of_nat (length vms)))], Closed), m)"
    if h: "0 \<le> sint from" "versionExists s from = None" "up_chain s from vms" "vms \<noteq> []"
      "int (length vms) < sint limit" "length vms < fuel"
      "\<not> isGracefulStop m" "\<not> GracefulStop m"
  proof -
    from h have l0: "limit \<noteq> 0" by auto
    have "readUp_loop fuel s None m from limit 0 =
           ((map (\<lambda>p. IMigr (snd p)) vms @
              [IErr (ErrShortLimit (limit - (0 + of_nat (length vms))))], Closed), m)"
      using h by (intro readUp_loop_short) auto
    with h l0 show ?thesis by (simp add: readUp_def absent_eq)
  qed
  have c1: "fst (Steps Stub scenario_source 20 None Never 10 (engine_at 3))
     = Returned (Some (ErrShortLimit 7))"
    by code_simp
  have c2: "calls (snd (Steps Stub scenario_source 20 None Never 10 (engine_at 3))) =
     [CLock, CVersion,
      CRun \<lparr>Identifier = ''u'', Version = 4, TargetVersion = 4, Body = Some ''up''\<rparr>,
      CRun \<lparr>Identifier = ''u'', Version = 5, TargetVersion = 5, Body = Some ''up''\<rparr>,
      CRun \<lparr>Identifier = ''u'', Version = 7, TargetVersion = 7, Body = Some ''up''\<rparr>,
      CUnlock]"
    by code_simp
  have step: "readUp_loop (Suc k) s ps m v limit count =
          (([IErr (ErrShortLimit (limit - count))], Closed),
           snd (stop (deliver (ps = Some 0) m)))"
    if h: "0 < sint count" "sint count < sint limit" "\<not> fst (stop (deliver (ps = Some 0) m))"
      "0 \<le> sint v" "src_Next s v = Inl e" "IsNotExist e"
  proof -
    have "sint (limit - count) = sint limit - sint count"
      using h by (intro sint_diff) auto
    then have sh: "suint (limit - count) = Some (limit - count)"
      using h by (simp add: suint_def)
    from h have c0: "count \<noteq> 0" "limit \<noteq> - 1" by auto
    obtain b m1 where st: "stop (deliver (ps = Some 0) m) = (b, m1)"
      by (cases "stop (deliver (ps = Some 0) m)")
    with h(3) have b: "\<not> b" by simp
    show ?thesis
      using h(1,2,4,5,6) c0 sh st b
      by (simp add: suint_nonneg nonneg_not_nil send_close_def)
  qed
  from general short_value [of "length vms" limit] step c1 c2 show ?thesis by blast
qed

theorem readUp_short_limit_witness:
  "0 \<le> sint (3 :: gint) \<and> versionExists scenario_source 3 = None \<and>
   up_chain scenario_source 3
     [(4, \<lparr>Identifier = ''u'', Version = 4, TargetVersion = 4, Body = Some ''up''\<rparr>),
      (5, \<lparr>Identifier = ''u'', Version = 5, TargetVersion = 5, Body = Some ''up''\<rparr>),
      (7, \<lparr>Identifier = ''u'', Version = 7, TargetVersion = 7, Body = Some ''up''\<rparr>)] \<and>
   \<not> isGracefulStop (engine_at 3) \<and> \<not> GracefulStop (engine_at 3) \<and>
   readUp 20 scenario_source None (engine_at 3) 3 10 =
     (([IMigr \<lparr>Identifier = ''u'', Version = 4, TargetVersion = 4, Body = Some ''up''\<rparr>,
       IMigr \<lparr>Identifier = ''u'', Version = 5, TargetVersion = 5, Body = Some ''up''\<rparr>,
       IMigr \<lparr>Identifier = ''u'', Version = 7, TargetVersion = 7, Body = Some ''up''\<rparr>,
       IErr (ErrShortLimit 7)], Closed), engine_at 3)"
proof -
  let ?vms = "[(4 :: uint, \<lparr>Identifier = ''u'', Version = 4, TargetVersion = 4, Body = Some ''up''\<rparr>),
      (5, \<lparr>Identifier = ''u'', Version = 5, TargetVersion = 5, Body = Some ''up''\<rparr>),
      (7, \<lparr>Identifier = ''u'', Version = 7, TargetVersion = 7, Body = Some ''up''\<rparr>)]"
  have h1: "0 \<le> sint (3 :: gint)"
    by simp
  have h2: "versionExists scenario_source 3 = None"
    by code_simp
  have h3: "up_chain scenario_source 3 ?vms"
    by code_simp
  have h4: "?vms \<noteq> [] \<and> int (length ?vms) < sint (10 :: gint) \<and> length ?vms < 20"
    by simp
  have h5: "\<not> isGracefulStop (engine_at 3) \<and> \<not> GracefulStop (engine_at 3)"
    by (simp add: engine_at_def newCommon_def)
  from readUp_short_limit [of 3 scenario_source ?vms 10 20 "engine_at 3"] h1 h2 h3 h4 h5
  have "readUp 20 scenario_source None (engine_at 3) 3 10 =
          ((map (\<lambda>p. IMigr (snd p)) ?vms @
             [IErr (ErrShortLimit (10 - of_nat (length ?vms)))], Closed), engine_at 3)"
    by blast
  then have "readUp 20 scenario_source None (engine_at 3) 3 10 =
     (([IMigr \<lparr>Identifier = ''u'', Version = 4, TargetVersion = 4, Body = Some ''up''\<rparr>,
       IMigr \<lparr>Identifier = ''u'', Version = 5, TargetVersion = 5, Body = Some ''up''\<rparr>,
       IMigr \<lparr>Identifier = ''u'', Version = 7, TargetVersion = 7, Body = Some ''up''\<rparr>,
       IErr (ErrShortLimit 7)], Closed), engine_at 3)"
    by simp
  with h1 h2 h3 h5 show ?thesis
    by blast
qed

subsection \<open>Up and then down\<close>

lemma readUp_loop_all:
  assumes "up_chain s from vms" "0 \<le> sint from" "count + of_nat (length vms) \<noteq> 0"
    "length vms < fuel" "\<not> isGracefulStop m" "\<not> GracefulStop m"
  shows "readUp_loop fuel s None m from (- 1) count = ((map (\<lambda>p. IMigr (snd p)) vms, Closed), m)"
  using assms
proof (induction vms arbitrary: fuel "from" count)
  case Nil
  then obtain k where k: "fuel = Suc k" by (cases fuel) auto
  from Nil obtain e where e: "src_Next s from = Inl e" "IsNotExist e"
    by (auto split: sum.splits)
  have st: "stop (deliver (None = Some (0 :: nat)) m) = (False, m)"
    using Nil.prems by (intro stop_None)
  show ?case
    using k e Nil.prems(2,3) st
    by (simp add: suint_nonneg nonneg_not_nil)
next
  case (Cons p vms)
  obtain v x where p: "p = (v, x)" by (cases p)
  from Cons.prems obtain k where k: "fuel = Suc k" "length vms < k" by (cases fuel) auto
  from Cons.prems p have ch: "src_Next s from = Inr v" "0 \<le> sint v" "newMigration s v v = Inr x"
    "up_chain s v vms" by auto
  have st: "stop (deliver (None = Some (0 :: nat)) m) = (False, m)"
    using Cons.prems by (intro stop_None)
  have ih: "readUp_loop k s None m v (- 1) (count + 1) = ((map (\<lambda>p. IMigr (snd p)) vms, Closed), m)"
    using Cons.prems k ch by (intro Cons.IH) (auto simp: add.assoc)
  show ?case
    using k ch ih p Cons.prems(2) st
    by (simp add: suint_nonneg nonneg_not_nil emit_def)
qed

lemma suint_below_nil:
  fixes c :: gint
  assumes "sint c < - 1"
  shows "suint (- 1 - c) = Some (- 1 - c)"
proof -
  have "- (2 ^ 63) \<le> sint c" using sint_ge [of c] by simp
  with assms have "- (2 ^ 63) \<le> - 1 - sint c" "- 1 - sint c < 2 ^ 63" by auto
  then have "signed_take_bit 63 (- 1 - sint c) = - 1 - sint c"
    by (simp add: signed_take_bit_int_eq_self)
  then have "sint (- 1 - c) = - 1 - sint c"
    by (simp add: sint_word_ariths)
  with assms show ?thesis by (simp add: suint_def)
qed

lemma readDown_loop_all:
  assumes "down_chain s from ms" "0 \<le> sint from" "length ms \<le> fuel"
    "\<not> isGracefulStop m" "\<not> GracefulStop m"
  shows "readDown_loop fuel s None m from (- 1) count =
           ((map IMigr ms @ short_tail (count + of_nat (length ms)), Closed), m)"
  using assms
proof (induction s "from" ms arbitrary: fuel count rule: down_chain.induct)
  case (1 s u)
  then show ?case by simp
next
  case (2 s u x)
  then obtain k where k: "fuel = Suc k" by (cases fuel) auto
  from 2 obtain e f where e: "src_Prev s u = Inl e" "IsNotExist e" "src_First s = Inr f"
    "newMigration s f (- 1) = Inr x"
    by (auto split: sum.splits)
  have st: "stop (deliver (None = Some (0 :: nat)) m) = (False, m)"
    using "2.prems" by (intro stop_None)
  show ?case
    using k e "2.prems"(2) suint_below_nil [of "count + 1"] st
    by (simp add: suint_nonneg emit_def short_tail_def send_close_def)
next
  case (3 s u x x' r)
  then obtain k where k: "fuel = Suc k" "length (x' # r) \<le> k" by (cases fuel) auto
  from 3 obtain p where p: "src_Prev s u = Inr p" "0 \<le> sint p" "newMigration s u p = Inr x"
    "down_chain s p (x' # r)"
    by (auto split: sum.splits)
  have st: "stop (deliver (None = Some (0 :: nat)) m) = (False, m)"
    using "3.prems" by (intro stop_None)
  have ih: "readDown_loop k s None m p (- 1) (count + 1) =
              ((map IMigr (x' # r) @ short_tail (count + 1 + of_nat (length (x' # r))), Closed), m)"
    using "3.prems" k p by (intro "3.IH" [of p]) auto
  show ?case
    using k p ih "3.prems"(2) st
    by (simp add: suint_nonneg emit_def add.assoc)
qed

lemma non_nil_append: "non_nil (xs @ ys) = non_nil xs @ non_nil ys"
  by (induction xs rule: non_nil.induct) auto

lemma run_record_Stub:
  "fst (run_record Stub r m) = None \<and>
   summary (snd (run_record Stub r m)) =
     (TargetVersion r, MigrationSequence (databaseDrv m) @ non_nil [Body r],
      IsLocked (databaseDrv m), isLocked m, isGracefulStop m, GracefulStop m,
      calls m @ [CRun r])"
  by (simp add: run_record_def Stub_def stub_Run_def summary_def split: option.splits)

lemma apply_runs_summary:
  "summary (apply_runs recs m) =
     (if recs = [] then CurrentVersion (databaseDrv m) else TargetVersion (last recs),
      MigrationSequence (databaseDrv m) @ non_nil (map Body recs),
      IsLocked (databaseDrv m), isLocked m, isGracefulStop m, GracefulStop m,
      calls m @ map CRun recs)"
proof (induction recs arbitrary: m)
  case Nil
  show ?case by (simp add: apply_runs_def summary_def)
next
  case (Cons r recs)
  have a: "apply_runs (r # recs) m = apply_runs recs (snd (run_record Stub r m))"
    by (simp add: apply_runs_def)
  have b: "summary (snd (run_record Stub r m)) =
     (TargetVersion r, MigrationSequence (databaseDrv m) @ non_nil [Body r],
      IsLocked (databaseDrv m), isLocked m, isGracefulStop m, GracefulStop m,
      calls m @ [CRun r])"
    using run_record_Stub [of r m] by simp
  have c: "non_nil (map Body (r # recs)) = non_nil [Body r] @ non_nil (map Body recs)"
    using non_nil_append [of "[Body r]" "map Body recs"] by simp
  show ?case
    unfolding a c using Cons.IH [of "snd (run_record Stub r m)"] b
    by (simp add: summary_def)
qed

lemma runMigrations_Stub_records:
  assumes "\<not> isGracefulStop m" "\<not> GracefulStop m"
  shows "runMigrations Stub Never (map IMigr recs @ rest) e m =
           runMigrations Stub Never rest e (apply_runs recs m)"
  using assms
proof (induction recs arbitrary: m)
  case Nil
  show ?case by (simp add: apply_runs_def)
next
  case (Cons r recs)
  obtain m2 where rr: "run_record Stub r m = (None, m2)"
    using run_record_Stub [of r m] by (cases "run_record Stub r m") simp
  have "summary m2 = (TargetVersion r, MigrationSequence (databaseDrv m) @ non_nil [Body r],
      IsLocked (databaseDrv m), isLocked m, isGracefulStop m,
      GracefulStop m, calls m @ [CRun r])"
    using run_record_Stub [of r m] rr by simp
  with Cons.prems have q: "\<not> isGracefulStop m2" "\<not> GracefulStop m2"
    by (simp_all add: summary_def)
  have "apply_runs (r # recs) m = apply_runs recs m2"
    using rr by (simp add: apply_runs_def)
  with Cons.IH [OF q] rr Cons.prems show ?case
    by (simp add: stop_quiet deliver_False)
qed

lemma runMigrations_Stub_plan:
  assumes q: "\<not> isGracefulStop m" "\<not> GracefulStop m"
    and t: "tail = [] \<or> (\<exists>e. tail = [IErr e])"
  shows "runMigrations Stub Never (map IMigr recs @ tail) en m = (verdict tail en, apply_runs recs m)"
proof -
  have s: "summary (apply_runs recs m) =
     (if recs = [] then CurrentVersion (databaseDrv m) else TargetVersion (last recs),
      MigrationSequence (databaseDrv m) @ non_nil (map Body recs),
      IsLocked (databaseDrv m), isLocked m, isGracefulStop m, GracefulStop m,
      calls m @ map CRun recs)"
    by (rule apply_runs_summary)
  with q have q': "\<not> isGracefulStop (apply_runs recs m)" "\<not> GracefulStop (apply_runs recs m)"
    by (simp_all add: summary_def)
  have "runMigrations Stub Never tail en (apply_runs recs m) = (verdict tail en, apply_runs recs m)"
    using t q' by (cases en) (auto simp: stop_quiet deliver_False)
  then show ?thesis using runMigrations_Stub_records [OF q] by simp
qed

lemma share_quiet:
  "\<not> isGracefulStop mr \<Longrightarrow> \<not> GracefulStop mr \<Longrightarrow> \<not> isGracefulStop m \<Longrightarrow> \<not> GracefulStop m
    \<Longrightarrow> share m m mr = mr"
  by (simp add: share_def)

lemma run_plan_Stub:
  assumes q: "\<not> isGracefulStop m" "\<not> GracefulStop m"
    and t: "tail = [] \<or> (\<exists>e. tail = [IErr e])"
  shows "run_plan Stub Never ((map IMigr recs @ tail, en), m) m = (verdict tail en, apply_runs recs m)"
proof -
  have "summary (apply_runs recs m) =
     (if recs = [] then CurrentVersion (databaseDrv m) else TargetVersion (last recs),
      MigrationSequence (databaseDrv m) @ non_nil (map Body recs),
      IsLocked (databaseDrv m), isLocked m, isGracefulStop m, GracefulStop m,
      calls m @ map CRun recs)"
    by (rule apply_runs_summary)
  with q have q': "\<not> isGracefulStop (apply_runs recs m)" "\<not> GracefulStop (apply_runs recs m)"
    by (simp_all add: summary_def)
  show ?thesis
    using runMigrations_Stub_plan [OF q t, of recs en] share_quiet [OF q' q]
    by (simp add: run_plan_def)
qed

lemma planned_on_Stub_outcome:
  assumes m: "summary m = (cur, sq, False, False, False, False, cs)"
    and p: "\<And>m2. \<not> isGracefulStop m2 \<Longrightarrow> \<not> GracefulStop m2 \<Longrightarrow>
              plan m2 (if sint cur < 0 then NilVersion else cur) = ((map IMigr recs @ tail, en), m2)"
    and t: "tail = [] \<or> (\<exists>e. tail = [IErr e])"
    and x: "X = (case lock Stub m of
            (Some e, m1) \<Rightarrow> (Returned (Some e), m1)
          | (None, m1) \<Rightarrow>
              (case currentVersion Stub m1 of
                 (Inl e, m2) \<Rightarrow> return_unlockErr Stub (Returned (Some e), m2)
               | (Inr curVersion, m2) \<Rightarrow>
                   return_unlockErr Stub (run_plan Stub Never (plan m2 curVersion) m2)))"
  shows "fst X = verdict tail en \<and>
         (\<forall>r. verdict tail en = Returned r \<longrightarrow>
           summary (snd X) = (if recs = [] then cur else TargetVersion (last recs),
              sq @ non_nil (map Body recs), False, False,
              False, False, cs @ [CLock, CVersion] @ map CRun recs @ [CUnlock]))"
proof -
  let ?v = "if sint cur < 0 then NilVersion else cur"
  obtain m1 where l: "lock Stub m = (None, m1)"
    and s1: "summary m1 = (cur, sq, True, True, False, False, cs @ [CLock])"
    using m by (auto simp: summary_def lock_def Stub_def stub_Lock_def)
  obtain m2 where c: "currentVersion Stub m1 = (Inr ?v, m2)"
    and s2: "summary m2 = (cur, sq, True, True, False, False, cs @ [CLock, CVersion])"
    using s1 by (auto simp: summary_def currentVersion_def Stub_def stub_Version_def)
  from s2 have q: "\<not> isGracefulStop m2" "\<not> GracefulStop m2" by (simp_all add: summary_def)
  define m3 where "m3 = apply_runs recs m2"
  have r: "run_plan Stub Never (plan m2 ?v) m2 = (verdict tail en, m3)"
    using run_plan_Stub [OF q t, of recs en] p [OF q] by (simp add: m3_def)
  have s3: "summary m3 = (if recs = [] then cur else TargetVersion (last recs),
              sq @ non_nil (map Body recs), True, True,
              False, False, cs @ [CLock, CVersion] @ map CRun recs)"
    using apply_runs_summary [of recs m2] s2 by (simp add: m3_def summary_def)
  have X: "X = return_unlockErr Stub (verdict tail en, m3)"
    using l c r x by simp
  have o: "fst (return_unlockErr Stub (verdict tail en, m3)) = verdict tail en"
    by (cases "verdict tail en")
       (auto simp: return_unlockErr_def unlockErr_def unlock_def Stub_def stub_Unlock_def
         split: prod.splits)
  have f: "summary (snd (return_unlockErr Stub (Returned r, m3))) =
             (if recs = [] then cur else TargetVersion (last recs),
              sq @ non_nil (map Body recs), False, False,
              False, False, cs @ [CLock, CVersion] @ map CRun recs @ [CUnlock])" for r
    using s3 by (auto simp: summary_def return_unlockErr_def unlockErr_def unlock_def Stub_def
        stub_Unlock_def)
  from X o f show ?thesis by simp
qed

lemma newMigration_index_up:
  "v \<in> set vs \<Longrightarrow> newMigration (index_source vs up down) v v = Inr (up_record up v)"
  by (auto simp: newMigration_def index_source_def or_NotExist_def NewMigration_def
      up_record_def IsNotExist_def split: option.splits)

lemma newMigration_index_down:
  "v \<in> set vs \<Longrightarrow> sint t < sint v
    \<Longrightarrow> newMigration (index_source vs up down) v t = Inr (down_record down v t)"
  by (auto simp: newMigration_def index_source_def or_NotExist_def NewMigration_def
      down_record_def IsNotExist_def split: option.splits)

lemma next_in_last: "u \<notin> set pre \<Longrightarrow> next_in (pre @ [u]) u = None"
proof (induction pre)
  case Nil
  show ?case by simp
next
  case (Cons a pre)
  then show ?case by (cases pre) auto
qed

lemma next_in_mid: "u \<notin> set pre \<Longrightarrow> next_in (pre @ u # v # rest) u = Some v"
proof (induction pre)
  case Nil
  show ?case by simp
next
  case (Cons a pre)
  then show ?case by (cases pre) auto
qed

lemma prev_in_none: "v \<notin> set (tl xs) \<Longrightarrow> prev_in xs v = None"
  by (induction xs v rule: prev_in.induct) auto

lemma prev_in_first: "u \<notin> set rest \<Longrightarrow> prev_in (u # rest) u = None"
  by (simp add: prev_in_none)

lemma prev_in_mid: "u \<notin> set pre \<Longrightarrow> u \<noteq> p \<Longrightarrow> prev_in (pre @ p # u # rest) u = Some p"
proof (induction pre)
  case Nil
  then show ?case by simp
next
  case (Cons a pre)
  then show ?case by (cases pre) auto
qed

lemma up_chain_index:
  assumes "distinct (pre @ u # rest)" "\<forall>v\<in>set rest. 0 \<le> sint v"
  shows "up_chain (index_source (pre @ u # rest) up down) u (map (\<lambda>v. (v, up_record up v)) rest)"
  using assms
proof (induction rest arbitrary: pre u)
  case Nil
  then have "next_in (pre @ [u]) u = None" by (intro next_in_last) simp
  then show ?case by (simp add: index_source_def or_NotExist_def IsNotExist_def)
next
  case (Cons v rest)
  have n: "next_in (pre @ u # v # rest) u = Some v"
    using Cons.prems by (intro next_in_mid) simp
  have m: "newMigration (index_source (pre @ u # v # rest) up down) v v = Inr (up_record up v)"
    by (intro newMigration_index_up) simp
  have "up_chain (index_source ((pre @ [u]) @ v # rest) up down) v
          (map (\<lambda>v. (v, up_record up v)) rest)"
    using Cons.prems by (intro Cons.IH) auto
  then have ih: "up_chain (index_source (pre @ u # v # rest) up down) v
          (map (\<lambda>v. (v, up_record up v)) rest)" by simp
  have nx: "src_Next (index_source (pre @ u # v # rest) up down) u = Inr v"
    using n by (simp add: index_source_def or_NotExist_def)
  show ?case using nx m ih Cons.prems(2) by simp
qed

lemma down_chain_index:
  assumes "distinct (pre @ u # post)" "\<forall>v\<in>set pre. 0 \<le> sint v \<and> sint v < sint u"
    "sorted_wrt (\<lambda>a b. sint a < sint b) pre" "0 \<le> sint u"
  shows "down_chain (index_source (pre @ u # post) up down) u
           (map (\<lambda>p. down_record down (fst p) (snd p)) (down_steps (u # rev pre)))"
  using assms
proof (induction pre arbitrary: u post rule: rev_induct)
  case Nil
  have p: "src_Prev (index_source (u # post) up down) u = Inl OsErrNotExist"
    using Nil.prems prev_in_first [of u post] by (simp add: index_source_def or_NotExist_def)
  have f: "src_First (index_source (u # post) up down) = Inr u"
    by (simp add: index_source_def or_NotExist_def)
  have m: "newMigration (index_source (u # post) up down) u (- 1) = Inr (down_record down u (- 1))"
    using Nil.prems by (intro newMigration_index_down) auto
  show ?case using p f m by (simp add: IsNotExist_def)
next
  case (snoc p pre)
  have pv: "prev_in (pre @ p # u # post) u = Some p"
    using snoc.prems by (intro prev_in_mid) auto
  then have sp: "src_Prev (index_source ((pre @ [p]) @ u # post) up down) u = Inr p"
    by (simp add: index_source_def or_NotExist_def)
  have lt: "sint p < sint u" "0 \<le> sint p" using snoc.prems by auto
  have m: "newMigration (index_source ((pre @ [p]) @ u # post) up down) u p
             = Inr (down_record down u p)"
    using lt by (intro newMigration_index_down) auto
  have "down_chain (index_source (pre @ p # (u # post)) up down) p
           (map (\<lambda>p. down_record down (fst p) (snd p)) (down_steps (p # rev pre)))"
    using snoc.prems by (intro snoc.IH) (auto simp: sorted_wrt_append)
  then have ih: "down_chain (index_source ((pre @ [p]) @ u # post) up down) p
           (map (\<lambda>p. down_record down (fst p) (snd p)) (down_steps (p # rev pre)))" by simp
  obtain x xs where ds: "down_steps (p # rev pre) = x # xs"
    by (cases "rev pre") auto
  show ?case using sp lt m ih ds by simp
qed

lemma uint_nonneg:
  assumes "0 \<le> sint (x :: gint)"
  shows "uint x = sint x"
proof -
  have "sint x < 2 ^ 64" using sint_lt [of x] by simp
  with assms have "take_bit 64 (sint x) = sint x"
    by (simp add: take_bit_int_eq_self)
  then show ?thesis using uint_sint [of x] by simp
qed

lemma less_nonneg:
  "0 \<le> sint (a :: gint) \<Longrightarrow> 0 \<le> sint b \<Longrightarrow> a < b \<longleftrightarrow> sint a < sint b"
  by (simp add: word_less_def uint_nonneg)

lemma sorted_signed:
  assumes "sorted_wrt (<) (vs :: gint list)" "\<forall>v\<in>set vs. 0 \<le> sint v"
  shows "sorted_wrt (\<lambda>a b. sint a < sint b) vs"
  using assms(1)
proof (rule sorted_wrt_mono_rel [rotated])
  fix a b assume "a \<in> set vs" "b \<in> set vs" "a < b"
  then show "sint a < sint b" using assms(2) less_nonneg by blast
qed

lemma signed_distinct: "sorted_wrt (\<lambda>a b. sint a < sint b) (vs :: gint list) \<Longrightarrow> distinct vs"
  by (induction vs) auto

lemma length_bound:
  assumes "sorted_wrt (\<lambda>a b. sint a < sint b) (vs :: gint list)" "\<forall>v\<in>set vs. 0 \<le> sint v"
    "vs \<noteq> []"
  shows "int (length vs) \<le> sint (last vs) + 1"
  using assms
proof (induction vs rule: rev_induct)
  case Nil
  then show ?case by simp
next
  case (snoc x ys)
  show ?case
  proof (cases "ys = []")
    case True
    with snoc.prems show ?thesis by simp
  next
    case False
    have "int (length ys) \<le> sint (last ys) + 1"
      using snoc.prems False by (intro snoc.IH) (auto simp: sorted_wrt_append)
    moreover have "sint (last ys) < sint x"
      using snoc.prems False by (auto simp: sorted_wrt_append)
    ultimately show ?thesis by simp
  qed
qed

lemma length_word:
  assumes "sorted_wrt (\<lambda>a b. sint a < sint b) (vs :: gint list)" "\<forall>v\<in>set vs. 0 \<le> sint v"
    "vs \<noteq> []"
  shows "(of_nat (length vs) :: gint) \<noteq> 0"
proof -
  have "sint (last vs) < 2 ^ 63" using sint_lt [of "last vs"] by simp
  with length_bound [OF assms] have "length vs \<le> 2 ^ 63" by simp
  then have "length vs < 2 ^ LENGTH(64)" by simp
  moreover have "0 < length vs" using assms(3) by simp
  ultimately show ?thesis by (intro of_nat_neq_0)
qed

lemma versionExists_index:
  assumes "v \<in> set vs" "up v \<noteq> None \<or> down v \<noteq> None"
  shows "versionExists (index_source vs up down) v = None"
  using assms
  by (cases "up v"; cases "down v")
     (auto simp: versionExists_def index_source_def or_NotExist_def IsExist_def IsNotExist_def)

lemma readUp_index:
  assumes sg: "sorted_wrt (\<lambda>a b. sint a < sint b) vs" and nn: "\<forall>v\<in>set vs. 0 \<le> sint v"
    and ne: "vs \<noteq> []" and fu: "length vs < fuel"
    and q: "\<not> isGracefulStop m" "\<not> GracefulStop m"
  shows "readUp fuel (index_source vs up down) None m (- 1) (- 1)
           = ((map IMigr (map (up_record up) vs), Closed), m)"
proof -
  let ?s = "index_source vs up down"
  obtain v0 rest where vs: "vs = v0 # rest" using ne by (cases vs) auto
  obtain k where k: "fuel = Suc k" "length rest < k" using fu vs by (cases fuel) auto
  have d: "distinct ([] @ v0 # rest)" using signed_distinct [OF sg] vs by simp
  have ch: "up_chain (index_source ([] @ v0 # rest) up down) v0
              (map (\<lambda>v. (v, up_record up v)) rest)"
    using d nn vs by (intro up_chain_index) auto
  have "(1 :: gint) + of_nat (length rest) = of_nat (length vs)" using vs by simp
  then have c: "(1 :: gint) + of_nat (length (map (\<lambda>v. (v, up_record up v)) rest)) \<noteq> 0"
    using length_word [OF sg nn ne] by simp
  have loop: "readUp_loop k ?s None m v0 (- 1) 1 =
          ((map (\<lambda>p. IMigr (snd p)) (map (\<lambda>v. (v, up_record up v)) rest), Closed), m)"
    using ch nn vs c k q by (intro readUp_loop_all) auto
  have f: "src_First ?s = Inr v0" using vs by (simp add: index_source_def or_NotExist_def)
  have x: "newMigration ?s v0 v0 = Inr (up_record up v0)"
    using vs by (intro newMigration_index_up) simp
  have a: "absent ?s (- 1) = Some False" by (simp add: absent_eq)
  have st: "stop (deliver (None = Some (0 :: nat)) m) = (False, m)"
    using q by (intro stop_None)
  show ?thesis
    using a k f x loop vs st by (simp add: readUp_def emit_def comp_def)
qed

lemma readDown_index:
  assumes sg: "sorted_wrt (\<lambda>a b. sint a < sint b) vs" and nn: "\<forall>v\<in>set vs. 0 \<le> sint v"
    and ne: "vs \<noteq> []" and fu: "length vs < fuel"
    and pr: "\<forall>v\<in>set vs. up v \<noteq> None \<or> down v \<noteq> None"
    and q: "\<not> isGracefulStop m" "\<not> GracefulStop m"
  shows "readDown fuel (index_source vs up down) None m (last vs) (- 1)
           = ((map IMigr (map (\<lambda>p. down_record down (fst p) (snd p)) (down_steps (rev vs)))
                @ short_tail (of_nat (length vs)), Closed), m)"
proof -
  let ?s = "index_source vs up down"
  let ?ms = "map (\<lambda>p. down_record down (fst p) (snd p)) (down_steps (rev vs))"
  obtain pre u where vs: "vs = pre @ [u]" using ne by (cases vs rule: rev_cases) auto
  have nu: "0 \<le> sint u" using nn vs by simp
  have len: "length (down_steps xs) = length xs" for xs :: "uint list"
    by (induction xs rule: down_steps.induct) auto
  have ch: "down_chain (index_source (pre @ u # []) up down) u
           (map (\<lambda>p. down_record down (fst p) (snd p)) (down_steps (u # rev pre)))"
    using signed_distinct [OF sg] sg nn vs
    by (intro down_chain_index) (auto simp: sorted_wrt_append)
  then have ch': "down_chain ?s u ?ms" using vs by simp
  have loop: "readDown_loop fuel ?s None m u (- 1) 0 =
           ((map IMigr ?ms @ short_tail (0 + of_nat (length ?ms)), Closed), m)"
    using ch' nu fu q by (intro readDown_loop_all) (auto simp: len)
  have a: "absent ?s u = Some False"
    using versionExists_index [of u vs up down] pr vs by (simp add: absent_eq)
  show ?thesis
    using a loop vs nu by (auto simp: readDown_def len)
qed

lemma runs_append: "runs (cs @ ds) = runs cs @ runs ds"
  by (induction cs rule: runs.induct) auto

lemma runs_map: "runs (map CRun ms) = ms"
  by (induction ms) auto

lemma down_steps_fst: "map fst (down_steps ds) = ds"
  by (induction ds rule: down_steps.induct) auto

lemma down_steps_nonempty: "ds \<noteq> [] \<Longrightarrow> down_steps ds \<noteq> []"
  by (cases ds rule: down_steps.cases) auto

lemma down_steps_last: "ds \<noteq> [] \<Longrightarrow> snd (last (down_steps ds)) = - 1"
  by (induction ds rule: down_steps.induct) (auto simp: down_steps_nonempty)

lemma down_steps_snd: "ds \<noteq> [] \<Longrightarrow> map snd (down_steps ds) = tl ds @ [- 1]"
  by (induction ds rule: down_steps.induct) auto

lemma up_record_fields:
  "Version (up_record up v) = v \<and> TargetVersion (up_record up v) = v \<and>
   Body (up_record up v) = map_option fst (up v)"
  by (simp add: up_record_def split: option.splits)

lemma down_record_fields:
  "Version (down_record down v t) = v \<and> TargetVersion (down_record down v t) = t \<and>
   Body (down_record down v t) = map_option fst (down v)"
  by (simp add: down_record_def split: option.splits)

lemma short_tail_cases: "short_tail c = [] \<or> (\<exists>e. short_tail c = [IErr e])"
  by (simp add: short_tail_def)

lemma verdict_short_tail: "\<exists>r. verdict (short_tail c) Closed = Returned r"
  by (simp add: short_tail_def)

lemma short_tail_small:
  assumes "int n < 2 ^ 63"
  shows "short_tail (of_nat n) = []"
proof -
  have "signed_take_bit 63 (int n) = int n"
    using assms by (simp add: signed_take_bit_int_eq_self)
  then have "sint (of_nat n :: gint) = int n" by (simp add: signed_of_nat)
  then show ?thesis by (simp add: short_tail_def)
qed

lemma readUp_loop_max_uint:
  assumes "\<not> isGracefulStop m" "\<not> GracefulStop m"
  shows "readUp_loop k max_uint_source None m (- 1) (- 1) count =
     ((replicate k (IMigr \<lparr>Identifier = ''u'', Version = - 1, TargetVersion = - 1,
                           Body = Some ''up''\<rparr>), OutOfFuel), m)"
proof (induction k arbitrary: count)
  case 0
  show ?case by simp
next
  case (Suc k)
  have f: "src_First max_uint_source = Inr (- 1)"
    by (simp add: max_uint_source_def index_source_def or_NotExist_def)
  have n: "newMigration max_uint_source (- 1) (- 1) =
      Inr \<lparr>Identifier = ''u'', Version = - 1, TargetVersion = - 1, Body = Some ''up''\<rparr>"
    by (simp add: max_uint_source_def index_source_def or_NotExist_def newMigration_def
        NewMigration_def)
  have st: "stop (deliver (None = Some (0 :: nat)) m) = (False, m)"
    using assms by (intro stop_None)
  show ?case using f n Suc.IH [of "count + 1"] st by (simp add: emit_def)
qed

text \<open>
  Claim C2, as stated, fails. A source index may hold the version 18446744073709551615;
  \<open>int(firstVersion)\<close> is then -1, the value that stands for the empty database, so
  \<open>readUp\<close> takes the \<open>First()\<close> branch in every iteration: with any fuel the planner
  has sent that many records for this version and has not ended, and \<open>Up()\<close> has not
  returned.
\<close>

theorem max_uint_version_counterexample:
  "(\<forall>fuel. fst (readUp fuel max_uint_source None (engine_at (- 1)) (- 1) (- 1)) =
      (replicate fuel (IMigr \<lparr>Identifier = ''u'', Version = - 1, TargetVersion = - 1,
                              Body = Some ''up''\<rparr>), OutOfFuel)) \<and>
   (\<forall>fuel. fst (Up Stub max_uint_source fuel None Never (engine_at (- 1))) = NotReturned)"
proof (intro conjI allI)
  fix fuel
  let ?r = "\<lparr>Identifier = ''u'', Version = - 1 :: uint, TargetVersion = - 1 :: gint,
             Body = Some ''up''\<rparr>"
  have planned: "readUp fuel max_uint_source None m (- 1) (- 1) = ((replicate fuel (IMigr ?r), OutOfFuel), m)"
    if "\<not> isGracefulStop m" "\<not> GracefulStop m" for m :: "stub engine"
    using readUp_loop_max_uint [OF that, of fuel 0] by (simp add: readUp_def absent_eq)
  have q0: "\<not> isGracefulStop (engine_at (- 1))" "\<not> GracefulStop (engine_at (- 1))"
    by (simp_all add: engine_at_def newCommon_def)
  show "fst (readUp fuel max_uint_source None (engine_at (- 1)) (- 1) (- 1)) =
          (replicate fuel (IMigr ?r), OutOfFuel)"
    using planned [OF q0] by simp
  have s0: "summary (engine_at (- 1)) = (- 1, [], False, False, False, False, [])"
    by (simp add: summary_def engine_at_def newCommon_def stub_Open_def)
  have p: "readUp fuel max_uint_source None m (if sint (- 1 :: gint) < 0 then NilVersion else - 1)
             (- 1) = ((map IMigr (replicate fuel ?r) @ [], OutOfFuel), m)"
    if "\<not> isGracefulStop m" "\<not> GracefulStop m" for m :: "stub engine"
    using planned [OF that] by (simp add: NilVersion_def)
  have "fst (Up Stub max_uint_source fuel None Never (engine_at (- 1))) = verdict [] OutOfFuel"
    using planned_on_Stub_outcome [OF s0,
          where plan = "\<lambda>m cur. readUp fuel max_uint_source None m cur (- 1)"
            and X = "Up Stub max_uint_source fuel None Never (engine_at (- 1))", OF p]
    by (simp add: Up_def)
  then show "fst (Up Stub max_uint_source fuel None Never (engine_at (- 1))) = NotReturned"
    by simp
qed

text \<open>
  Claim C2, amended. Take a source index with a non-empty, strictly ascending list of
  versions that are all at most the largest \<open>int\<close>, each with an up or a down payload,
  and the stub database at \<open>NilVersion\<close>; no stop signal arrives. With fuel beyond the
  number of versions, \<open>Up()\<close> returns nil, \<open>Down()\<close> after it returns (nil, when there
  are fewer than \<open>2^63\<close> versions) and the database is at \<open>NilVersion\<close> again. Across
  the two calls the driver is called with \<open>Lock\<close>, \<open>Version\<close>, one \<open>Run\<close> for the up
  record of each version in ascending order, \<open>Unlock\<close>, and then \<open>Lock\<close>, \<open>Version\<close>, one
  \<open>Run\<close> for the down record of each version in descending order, \<open>Unlock\<close>. What the
  \<open>Run\<close> calls hand to the driver: as targets the versions in ascending order, then
  for each down step the next lower version, and -1 last; as bodies the up payloads of
  the steps \<open>(v, up)\<close> in ascending order followed by the down payloads of the same
  steps flipped, in reverse order. The stub has recorded exactly the bodies that are
  not nil, in this order.
\<close>

theorem up_then_down_round_trip:
  assumes ne: "vs \<noteq> []" and so: "sorted_wrt (<) vs" and nn: "\<forall>v\<in>set vs. 0 \<le> sint v"
    and pr: "\<forall>v\<in>set vs. up v \<noteq> None \<or> down v \<noteq> None" and fu: "length vs < fuel"
  shows
    "fst (Up Stub (index_source vs up down) fuel None Never (engine_at (- 1))) = Returned None \<and>
     (\<exists>r. fst (Down Stub (index_source vs up down) fuel None Never
              (snd (Up Stub (index_source vs up down) fuel None Never (engine_at (- 1)))))
           = Returned r) \<and>
     (int (length vs) < 2 ^ 63 \<longrightarrow>
        fst (Down Stub (index_source vs up down) fuel None Never
              (snd (Up Stub (index_source vs up down) fuel None Never (engine_at (- 1)))))
           = Returned None) \<and>
     CurrentVersion (databaseDrv
       (snd (Down Stub (index_source vs up down) fuel None Never
              (snd (Up Stub (index_source vs up down) fuel None Never (engine_at (- 1)))))))
       = NilVersion \<and>
     calls
       (snd (Down Stub (index_source vs up down) fuel None Never
              (snd (Up Stub (index_source vs up down) fuel None Never (engine_at (- 1))))))
       = [CLock, CVersion] @ map CRun (map (up_record up) vs) @ [CUnlock] @
         [CLock, CVersion] @
         map CRun (map (\<lambda>p. down_record down (fst p) (snd p)) (down_steps (rev vs))) @
         [CUnlock] \<and>
     map fst (handed (calls
       (snd (Down Stub (index_source vs up down) fuel None Never
              (snd (Up Stub (index_source vs up down) fuel None Never (engine_at (- 1))))))))
       = vs @ tl (rev vs) @ [NilVersion] \<and>
     map snd (handed (calls
       (snd (Down Stub (index_source vs up down) fuel None Never
              (snd (Up Stub (index_source vs up down) fuel None Never (engine_at (- 1))))))))
       = map (payload up down)
           (map (\<lambda>v. (v, DUp)) vs @ map flip (rev (map (\<lambda>v. (v, DUp)) vs))) \<and>
     MigrationSequence (databaseDrv
       (snd (Down Stub (index_source vs up down) fuel None Never
              (snd (Up Stub (index_source vs up down) fuel None Never (engine_at (- 1)))))))
       = non_nil (map snd (handed (calls
           (snd (Down Stub (index_source vs up down) fuel None Never
              (snd (Up Stub (index_source vs up down) fuel None Never (engine_at (- 1)))))))))"
proof -
  let ?s = "index_source vs up down"
  let ?ups = "map (up_record up) vs"
  let ?downs = "map (\<lambda>p. down_record down (fst p) (snd p)) (down_steps (rev vs))"
  define X1 where "X1 = Up Stub ?s fuel None Never (engine_at (- 1))"
  define X2 where "X2 = Down Stub ?s fuel None Never (snd X1)"
  have sg: "sorted_wrt (\<lambda>a b. sint a < sint b) vs" using so nn by (rule sorted_signed)
  have s0: "summary (engine_at (- 1)) = (- 1, [], False, False, False, False, [])"
    by (simp add: summary_def engine_at_def newCommon_def stub_Open_def)
  have p1: "readUp fuel ?s None m (if sint (- 1 :: gint) < 0 then NilVersion else - 1) (- 1)
              = ((map IMigr ?ups @ [], Closed), m)"
    if "\<not> isGracefulStop m" "\<not> GracefulStop m" for m :: "stub engine"
    using readUp_index [OF sg nn ne fu that] by (simp add: NilVersion_def)
  have r1: "fst X1 = verdict [] Closed \<and>
         (\<forall>r. verdict [] Closed = Returned r \<longrightarrow>
           summary (snd X1) = (if ?ups = [] then - 1 else TargetVersion (last ?ups),
              [] @ non_nil (map Body ?ups), False, False,
              False, False, [] @ [CLock, CVersion] @ map CRun ?ups @ [CUnlock]))"
    by (rule planned_on_Stub_outcome [OF s0,
          where plan = "\<lambda>m cur. readUp fuel ?s None m cur (- 1)", OF p1])
       (simp_all add: X1_def Up_def)
  have lv: "TargetVersion (last ?ups) = last vs"
    using ne by (simp add: last_map up_record_fields)
  from r1 lv ne have s1: "summary (snd X1) = (last vs, non_nil (map Body ?ups), False, False,
      False, False, [CLock, CVersion] @ map CRun ?ups @ [CUnlock])" by simp
  from r1 have o1: "fst X1 = Returned None" by simp
  have nl: "0 \<le> sint (last vs)" using nn ne by simp
  have p2: "readDown fuel ?s None m (if sint (last vs) < 0 then NilVersion else last vs) (- 1)
              = ((map IMigr ?downs @ short_tail (of_nat (length vs)), Closed), m)"
    if "\<not> isGracefulStop m" "\<not> GracefulStop m" for m :: "stub engine"
    using readDown_index [OF sg nn ne fu pr that] nl by simp
  obtain r where v: "verdict (short_tail (of_nat (length vs))) Closed = Returned r"
    using verdict_short_tail by blast
  have r2: "fst X2 = verdict (short_tail (of_nat (length vs))) Closed \<and>
         (\<forall>r. verdict (short_tail (of_nat (length vs))) Closed = Returned r \<longrightarrow>
         summary (snd X2) = (if ?downs = [] then last vs else TargetVersion (last ?downs),
            non_nil (map Body ?ups) @ non_nil (map Body ?downs), False,
            False, False, False,
            ([CLock, CVersion] @ map CRun ?ups @ [CUnlock]) @
              [CLock, CVersion] @ map CRun ?downs @ [CUnlock]))"
    by (rule planned_on_Stub_outcome [OF s1,
          where plan = "\<lambda>m cur. readDown fuel ?s None m cur (- 1)",
          OF p2 short_tail_cases])
       (simp_all add: X2_def Down_def)
  from r2 v have o2: "fst X2 = Returned r" by simp
  from r2 v have s2: "summary (snd X2) =
           (if ?downs = [] then last vs else TargetVersion (last ?downs),
            non_nil (map Body ?ups) @ non_nil (map Body ?downs), False,
            False, False, False,
            ([CLock, CVersion] @ map CRun ?ups @ [CUnlock]) @
              [CLock, CVersion] @ map CRun ?downs @ [CUnlock])"
    by blast
  have o3: "fst X2 = Returned None" if "int (length vs) < 2 ^ 63"
    using r2 short_tail_small [OF that] by simp
  have dn: "down_steps (rev vs) \<noteq> []" using ne by (intro down_steps_nonempty) simp
  have ld: "TargetVersion (last ?downs) = - 1"
    using dn down_steps_last [of "rev vs"] ne by (simp add: last_map down_record_fields)
  from s2 dn ld have cv: "CurrentVersion (databaseDrv (snd X2)) = NilVersion"
    by (simp add: summary_def NilVersion_def)
  from s2 have cs: "calls (snd X2) = [CLock, CVersion] @ map CRun ?ups @ [CUnlock] @
              [CLock, CVersion] @ map CRun ?downs @ [CUnlock]"
    by (simp add: summary_def)
  from s2 have ms: "MigrationSequence (databaseDrv (snd X2)) =
      non_nil (map Body ?ups) @ non_nil (map Body ?downs)"
    by (simp add: summary_def)
  have ru: "runs (calls (snd X2)) = ?ups @ ?downs"
    unfolding cs runs_append runs_map by simp
  have hd: "handed (calls (snd X2)) =
      map (\<lambda>v. (v, map_option fst (up v))) vs @
      map (\<lambda>p. (snd p, map_option fst (down (fst p)))) (down_steps (rev vs))"
    unfolding handed_def ru by (simp add: up_record_fields down_record_fields comp_def)
  have rv: "rev vs \<noteq> []" using ne by simp
  have tg: "map fst (handed (calls (snd X2))) = vs @ tl (rev vs) @ [NilVersion]"
    unfolding hd using down_steps_snd [OF rv]
    by (simp add: comp_def NilVersion_def)
  have "map (\<lambda>p. map_option fst (down (fst p))) (down_steps (rev vs))
          = map (\<lambda>v. map_option fst (down v)) (map fst (down_steps (rev vs)))"
    by (simp add: comp_def)
  then have db: "map (\<lambda>p. map_option fst (down (fst p))) (down_steps (rev vs))
          = map (\<lambda>v. map_option fst (down v)) (rev vs)"
    by (simp only: down_steps_fst)
  have bd: "map snd (handed (calls (snd X2))) =
      map (payload up down) (map (\<lambda>v. (v, DUp)) vs @ map flip (rev (map (\<lambda>v. (v, DUp)) vs)))"
    unfolding hd using db by (simp add: comp_def rev_map)
  have sq: "MigrationSequence (databaseDrv (snd X2)) = non_nil (map snd (handed (calls (snd X2))))"
    unfolding ms handed_def ru by (simp add: comp_def non_nil_append)
  from o1 o2 o3 cv cs tg bd sq show ?thesis
    unfolding X2_def X1_def by blast
qed

theorem up_then_down_round_trip_witness:
  "list_all (\<lambda>v. 0 \<le> sint v) scenario_versions \<and>
   fst (Up Stub scenario_source 20 None Never (engine_at (- 1))) = Returned None \<and>
   fst (Down Stub scenario_source 20 None Never
          (snd (Up Stub scenario_source 20 None Never (engine_at (- 1))))) = Returned None \<and>
   CurrentVersion (databaseDrv
       (snd (Down Stub scenario_source 20 None Never
              (snd (Up Stub scenario_source 20 None Never (engine_at (- 1)))))))
       = NilVersion \<and>
   map fst (handed (calls
       (snd (Down Stub scenario_source 20 None Never
              (snd (Up Stub scenario_source 20 None Never (engine_at (- 1))))))))
       = [1, 3, 4, 5, 7, 5, 4, 3, 1, - 1] \<and>
   map snd (handed (calls
       (snd (Down Stub scenario_source 20 None Never
              (snd (Up Stub scenario_source 20 None Never (engine_at (- 1))))))))
       = [Some ''up'', Some ''up'', Some ''up'', Some ''up'', Some ''up'',
          Some ''down'', Some ''down'', Some ''down'', Some ''down'', Some ''down'']"
proof -
  have h1: "scenario_versions \<noteq> []"
    by (simp add: scenario_versions_def)
  have h2: "sorted_wrt (<) scenario_versions"
    by (simp add: scenario_versions_def)
  have h3: "\<forall>v\<in>set scenario_versions. 0 \<le> sint v"
    by (simp add: scenario_versions_def)
  have h4: "\<forall>v\<in>set scenario_versions.
              (\<lambda>v. Some (''up'', ''u'')) v \<noteq> None \<or> (\<lambda>v. Some (''down'', ''d'')) v \<noteq> None"
    by simp
  have h5: "length scenario_versions < 20"
    by (simp add: scenario_versions_def)
  have h6: "int (length scenario_versions) < 2 ^ 63"
    by (simp add: scenario_versions_def)
  note t = up_then_down_round_trip [OF h1 h2 h3 h4 h5, folded scenario_source_def]
  note c1 = t [THEN conjunct1]
  note c3 = t [THEN conjunct2, THEN conjunct2, THEN conjunct1]
  note c4 = t [THEN conjunct2, THEN conjunct2, THEN conjunct2, THEN conjunct1]
  note c6 = t [THEN conjunct2, THEN conjunct2, THEN conjunct2, THEN conjunct2, THEN conjunct2,
      THEN conjunct1]
  note c7 = t [THEN conjunct2, THEN conjunct2, THEN conjunct2, THEN conjunct2, THEN conjunct2,
      THEN conjunct2, THEN conjunct1]
  have a0: "list_all (\<lambda>v. 0 \<le> sint v) scenario_versions"
    using h3 by (simp add: list_all_iff)
  have a3: "fst (Down Stub scenario_source 20 None Never
          (snd (Up Stub scenario_source 20 None Never (engine_at (- 1))))) = Returned None"
    using c3 h6 by simp
  have a6: "map fst (handed (calls
       (snd (Down Stub scenario_source 20 None Never
              (snd (Up Stub scenario_source 20 None Never (engine_at (- 1))))))))
       = [1, 3, 4, 5, 7, 5, 4, 3, 1, - 1]"
    unfolding c6 by (simp add: scenario_versions_def NilVersion_def)
  have a7: "map snd (handed (calls
       (snd (Down Stub scenario_source 20 None Never
              (snd (Up Stub scenario_source 20 None Never (engine_at (- 1))))))))
       = [Some ''up'', Some ''up'', Some ''up'', Some ''up'', Some ''up'',
          Some ''down'', Some ''down'', Some ''down'', Some ''down'', Some ''down'']"
    unfolding c7 by (simp add: scenario_versions_def)
  from a0 c1 a3 c4 a6 a7 show ?thesis
    by (intro conjI)
qed

subsection \<open>Graceful stop\<close>













































end
